theory Spec2Isabelle
  imports Main "HOL-Library.Multiset"
begin

section \<open>Strings\<close>

text \<open>
  A JavaScript string is a sequence of UTF-16 code units. The model takes \<^typ>\<open>string\<close>
  (a list of \<^typ>\<open>char\<close>) and reads a character as a code unit in the range 0..255.
  In that range the characters matched by \<^verbatim>\<open>\s\<close> and removed by \<^verbatim>\<open>trim()\<close>
  are TAB, LF, VT, FF, CR, SPACE and NBSP; the line terminators, which \<^verbatim>\<open>.\<close> does not
  match, are LF and CR.
\<close>

definition isWhiteSpace :: "char \<Rightarrow> bool" where
  "isWhiteSpace c \<longleftrightarrow>
     c = CHR 0x09 \<or> c = CHR 0x0A \<or> c = CHR 0x0B \<or> c = CHR 0x0C \<or> c = CHR 0x0D \<or>
     c = CHR 0x20 \<or> c = CHR 0xA0"

definition isLineTerminator :: "char \<Rightarrow> bool" where
  "isLineTerminator c \<longleftrightarrow> c = CHR 0x0A \<or> c = CHR 0x0D"

definition isHash :: "char \<Rightarrow> bool" where
  "isHash c \<longleftrightarrow> c = CHR ''#''"

text \<open>\<^verbatim>\<open>s.trim()\<close>\<close>

definition trim :: "string \<Rightarrow> string" where
  "trim s = rev (dropWhile isWhiteSpace (rev (dropWhile isWhiteSpace s)))"

text \<open>\<^verbatim>\<open>s.split('\n')\<close>: the empty string gives one empty line.\<close>

fun split_lines :: "string \<Rightarrow> string list" where
  "split_lines [] = [[]]"
| "split_lines (c # cs) =
     (if c = CHR 0x0A then [] # split_lines cs
      else (case split_lines cs of
              [] \<Rightarrow> [[c]]
            | l # ls \<Rightarrow> (c # l) # ls))"

text \<open>
  \<^verbatim>\<open>line.match(/^#+/)?.[0].length || 0\<close> and
  \<^verbatim>\<open>(line.match(/^#+/) || [''])[0].length\<close>: the number of leading hashes.
\<close>

definition heading_level :: "string \<Rightarrow> nat" where
  "heading_level line = length (takeWhile isHash line)"

text \<open>\<^verbatim>\<open>s.replace(/^#+\s*/, '')\<close>: without a leading hash nothing is replaced.\<close>

definition strip_heading :: "string \<Rightarrow> string" where
  "strip_heading s =
     (if takeWhile isHash s = [] then s
      else dropWhile isWhiteSpace (dropWhile isHash s))"

text \<open>
  The decimal rendering of a number in a template literal. Levels and sibling indices
  are small non-negative integers, for which JavaScript prints plain decimal digits.
\<close>

definition digit_char :: "nat \<Rightarrow> char" where
  "digit_char d = char_of (of_char (CHR ''0'') + d)"

function show_nat :: "nat \<Rightarrow> string" where
  "show_nat n = (if n < 10 then [digit_char n] else show_nat (n div 10) @ [digit_char (n mod 10)])"
  by pat_completeness auto
termination
  by (relation "measure id") auto

section \<open>First scheme: the stack of open ancestors\<close>

text \<open>
  \<^verbatim>\<open>parseMarkdown\<close> of \<^verbatim>\<open>src/utils/markdownParser.ts\<close>, lines 14 to 50. The nodes are
  objects that the stack and the children arrays share, so the model keeps them in a
  store: a list of cells, a reference being an index into it. Cell 0 is the virtual
  root created before the loop.
\<close>

record MarkdownNode =
  level :: int
  content :: string
  children :: "nat list"

datatype MindMapNode =
  MindMapNode (node_id: string) (node_label: string) (node_x: int) (node_y: int)
    (node_children: "MindMapNode list")

datatype error = TypeError | FuelExhausted

type_synonym store1 = "MarkdownNode list"

definition root_node :: MarkdownNode where
  "root_node = \<lparr>level = -1, content = ''Root'', children = []\<rparr>"

text \<open>
  \<^verbatim>\<open>while (stack.length > 1 && stack[stack.length - 1].level >= level) stack.pop()\<close>.
  The top of the stack is the last element of the list.
\<close>

function pop_stack :: "store1 \<Rightarrow> nat list \<Rightarrow> int \<Rightarrow> nat list" where
  "pop_stack h stack lv =
     (if length stack > 1 \<and> level (h ! last stack) \<ge> lv
      then pop_stack h (butlast stack) lv else stack)"
  by pat_completeness auto
termination
  by (relation "measure (\<lambda>(h, stack, lv). length stack)") auto

text \<open>The body of \<^verbatim>\<open>lines.forEach\<close> for one line.\<close>

definition push_child :: "nat \<Rightarrow> MarkdownNode \<Rightarrow> MarkdownNode" where
  "push_child r n = n\<lparr>children := children n @ [r]\<rparr>"

definition step1 :: "store1 \<times> nat list \<Rightarrow> string \<Rightarrow> store1 \<times> nat list" where
  "step1 st line =
     (let h = fst st; stack = snd st;
          lv = int (heading_level line);
          node = \<lparr>level = lv, content = trim (strip_heading line), children = []\<rparr>;
          r = length h;
          h1 = h @ [node];
          stack1 = pop_stack h1 stack lv;
          top = last stack1;
          h2 = h1[top := push_child r (h1 ! top)]
      in (h2, stack1 @ [r]))"

definition lines1 :: "string \<Rightarrow> string list" where
  "lines1 markdown = filter (\<lambda>line. trim line \<noteq> []) (split_lines markdown)"

definition init1 :: "store1 \<times> nat list" where
  "init1 = ([root_node], [0])"

definition run1 :: "string list \<Rightarrow> store1 \<times> nat list" where
  "run1 ls = foldl step1 init1 ls"

text \<open>
  \<^verbatim>\<open>convertToMindMap(node, level, index)\<close>. The recursion follows references through the
  store, so it takes fuel: \<open>None\<close> is running out of fuel (or a reference outside the
  store, which the program never makes).
\<close>

fun convertToMindMap :: "nat \<Rightarrow> store1 \<Rightarrow> nat \<Rightarrow> nat \<Rightarrow> nat \<Rightarrow> MindMapNode option" where
  "convertToMindMap 0 h r lv idx = None"
| "convertToMindMap (Suc fuel) h r lv idx =
     (if r < length h then
        (case those (map (\<lambda>(child, i). convertToMindMap fuel h child (lv + 1) i)
                      (zip (children (h ! r)) [0..<length (children (h ! r))])) of
           None \<Rightarrow> None
         | Some cs \<Rightarrow>
             Some (MindMapNode (''node-'' @ show_nat lv @ ''-'' @ show_nat idx)
                     (content (h ! r)) (int lv * 200) (int idx * 100) cs))
      else None)"

text \<open>
  \<^verbatim>\<open>return convertToMindMap(root.children[0])\<close>: with no line, \<^verbatim>\<open>root.children[0]\<close> is
  \<^verbatim>\<open>undefined\<close> and reading \<^verbatim>\<open>node.content\<close> throws a TypeError.
\<close>

definition result1 :: "store1 \<Rightarrow> error + MindMapNode" where
  "result1 h =
     (case children (h ! 0) of
        [] \<Rightarrow> Inl TypeError
      | c # _ \<Rightarrow>
          (case convertToMindMap (length h) h c 0 0 of
             None \<Rightarrow> Inl FuelExhausted
           | Some t \<Rightarrow> Inr t))"

definition parseMarkdown1 :: "string \<Rightarrow> error + MindMapNode" where
  "parseMarkdown1 markdown = result1 (fst (run1 (lines1 markdown)))"

section \<open>Second scheme: the last node seen at each level\<close>

text \<open>
  \<^verbatim>\<open>parseMarkdown\<close> of the component file (lines 84 to 182 of the source text), with its
  helper \<^verbatim>\<open>parseLine\<close>.
\<close>

subsection \<open>The regular expressions of \<^verbatim>\<open>parseLine\<close>\<close>

definition isHexDigit :: "char \<Rightarrow> bool" where
  "isHexDigit c \<longleftrightarrow>
     (let n = (of_char c :: nat) in
        (48 \<le> n \<and> n \<le> 57) \<or> (65 \<le> n \<and> n \<le> 70) \<or> (97 \<le> n \<and> n \<le> 102))"

text \<open>\<^verbatim>\<open>/\[(#[A-Fa-f0-9]{6})\]/\<close> matches at the start of \<open>s\<close>.\<close>

definition color_at :: "string \<Rightarrow> bool" where
  "color_at s \<longleftrightarrow>
     length s \<ge> 9 \<and> s ! 0 = CHR ''['' \<and> s ! 1 = CHR ''#'' \<and>
     list_all isHexDigit (take 6 (drop 2 s)) \<and> s ! 8 = CHR '']''"

text \<open>\<^verbatim>\<open>line.match(/\[(#[A-Fa-f0-9]{6})\]/)\<close>: the group of the leftmost match.\<close>

fun colorMatch :: "string \<Rightarrow> string option" where
  "colorMatch [] = None"
| "colorMatch (c # cs) = (if color_at (c # cs) then Some (take 7 cs) else colorMatch cs)"

text \<open>
  \<^verbatim>\<open>/\((.*?)\)$/\<close> matches at the start of \<open>s\<close>: an opening parenthesis, then characters
  that are not line terminators, then a closing parenthesis that ends the input.
\<close>

definition paren_at :: "string \<Rightarrow> bool" where
  "paren_at s \<longleftrightarrow>
     (case s of
        [] \<Rightarrow> False
      | c # r \<Rightarrow> c = CHR ''('' \<and> r \<noteq> [] \<and> last r = CHR '')'' \<and>
                 list_all (\<lambda>x. \<not> isLineTerminator x) (butlast r))"

text \<open>\<^verbatim>\<open>line.match(/\((.*?)\)$/)\<close>: the group of the leftmost match.\<close>

fun edgeLabelMatch :: "string \<Rightarrow> string option" where
  "edgeLabelMatch [] = None"
| "edgeLabelMatch (c # cs) =
     (if paren_at (c # cs) then Some (butlast cs) else edgeLabelMatch cs)"

text \<open>
  \<^verbatim>\<open>/\s*\[.*?\]/\<close> at the start of \<open>s\<close>: the rest of the input behind the match. The greedy
  \<^verbatim>\<open>\s*\<close> takes the whole run of white space, and the lazy \<^verbatim>\<open>.*?\<close> stops at the first
  closing bracket, which no line terminator may precede.
\<close>

definition bracket_at :: "string \<Rightarrow> string option" where
  "bracket_at s =
     (case dropWhile isWhiteSpace s of
        [] \<Rightarrow> None
      | c # r \<Rightarrow>
          (if c = CHR ''['' then
             (let body = takeWhile (\<lambda>x. x \<noteq> CHR '']'') r;
                  rest = dropWhile (\<lambda>x. x \<noteq> CHR '']'') r
              in if rest \<noteq> [] \<and> list_all (\<lambda>x. \<not> isLineTerminator x) body
                 then Some (tl rest) else None)
           else None))"

lemma bracket_at_shorter: "bracket_at s = Some rest \<Longrightarrow> length rest < length s"
proof -
  assume a: "bracket_at s = Some rest"
  then obtain c r where d: "dropWhile isWhiteSpace s = c # r"
    by (auto simp: bracket_at_def split: list.splits)
  with a have "rest = tl (dropWhile (\<lambda>x. x \<noteq> CHR '']'') r)"
    by (auto simp: bracket_at_def Let_def split: if_splits)
  then have "length rest \<le> length r"
    using length_dropWhile_le [of "\<lambda>x. x \<noteq> CHR '']''" r] by simp
  moreover have "length (c # r) \<le> length s"
    using d length_dropWhile_le [of isWhiteSpace s] by simp
  ultimately show ?thesis by simp
qed

text \<open>\<^verbatim>\<open>s.replace(/\s*\[.*?\]/g, '')\<close>: every match, from the left, is removed.\<close>

function remove_brackets :: "string \<Rightarrow> string" where
  "remove_brackets [] = []"
| "remove_brackets (c # cs) =
     (case bracket_at (c # cs) of
        Some rest \<Rightarrow> remove_brackets rest
      | None \<Rightarrow> c # remove_brackets cs)"
  by pat_completeness auto
termination
  by (relation "measure length") (auto dest: bracket_at_shorter)

text \<open>
  \<^verbatim>\<open>s.replace(/\s*\(.*?\)$/g, '')\<close>: a match runs to the end of the input, so the leftmost
  one is the only one.
\<close>

fun remove_annotation :: "string \<Rightarrow> string" where
  "remove_annotation [] = []"
| "remove_annotation (c # cs) =
     (if paren_at (dropWhile isWhiteSpace (c # cs)) then [] else c # remove_annotation cs)"

record ParsedLine =
  pl_label :: string
  pl_color :: string
  pl_edgeLabel :: "string option"

definition parseLine :: "string \<Rightarrow> ParsedLine" where
  "parseLine line =
     \<lparr>pl_label = trim (strip_heading (remove_annotation (remove_brackets line))),
      pl_color = (case colorMatch line of Some c \<Rightarrow> c | None \<Rightarrow> ''#212529''),
      pl_edgeLabel = edgeLabelMatch line\<rparr>"

subsection \<open>The identifier\<close>

text \<open>\<^verbatim>\<open>toLowerCase()\<close> on code units below 256.\<close>

definition lower_char :: "char \<Rightarrow> char" where
  "lower_char c =
     (let n = (of_char c :: nat) in
        if (65 \<le> n \<and> n \<le> 90) \<or> (192 \<le> n \<and> n \<le> 214) \<or> (216 \<le> n \<and> n \<le> 222)
        then char_of (n + 32) else c)"

definition toLowerCase :: "string \<Rightarrow> string" where
  "toLowerCase s = map lower_char s"

text \<open>\<^verbatim>\<open>s.replace(/\s+/g, '-')\<close>: every run of white space becomes one hyphen.\<close>

function hyphenate :: "string \<Rightarrow> string" where
  "hyphenate [] = []"
| "hyphenate (c # cs) =
     (if isWhiteSpace c then CHR ''-'' # hyphenate (dropWhile isWhiteSpace cs)
      else c # hyphenate cs)"
  by pat_completeness auto
termination
  by (relation "measure length") (auto simp: le_imp_less_Suc length_dropWhile_le)

definition slug :: "string \<Rightarrow> string" where
  "slug label = hyphenate (toLowerCase label)"

subsection \<open>The two passes\<close>

text \<open>A JavaScript number that may be \<^verbatim>\<open>NaN\<close>: \<^verbatim>\<open>undefined - 80\<close> is \<^verbatim>\<open>NaN\<close>.\<close>

datatype number = Num int | NaN

fun num_add :: "number \<Rightarrow> int \<Rightarrow> number" where
  "num_add (Num a) b = Num (a + b)"
| "num_add NaN b = NaN"

text \<open>An object of type \<^verbatim>\<open>NodeDataType\<close> in the store; its children are references.\<close>

record NodeCell =
  cell_id :: string
  cell_label :: string
  cell_color :: string
  cell_edgeLabel :: "string option"
  cell_x :: int
  cell_y :: number
  cell_children :: "nat list"

record state2 =
  heap :: "NodeCell list"
  root :: "nat option"
  lastNodeAtLevel :: "nat \<rightharpoonup> nat"

definition xSpacing :: int where "xSpacing = 250"
definition ySpacing :: int where "ySpacing = 80"

text \<open>
  The key \<^verbatim>\<open>`${'#'.repeat(parentLevel)}-${lastNodeAtLevel[parentLevel]?.label}`\<close>: a missing
  parent prints as \<^verbatim>\<open>undefined\<close>.
\<close>

definition parentKey :: "NodeCell list \<Rightarrow> nat \<Rightarrow> nat option \<Rightarrow> string" where
  "parentKey h parentLevel parent =
     replicate parentLevel (CHR ''#'') @ ''-'' @
     (case parent of None \<Rightarrow> ''undefined'' | Some p \<Rightarrow> cell_label (h ! p))"

text \<open>
  First pass (lines 107 to 117). It runs before any node exists, so \<^verbatim>\<open>lastNodeAtLevel\<close> is
  empty throughout.
\<close>

definition count_step :: "(string \<rightharpoonup> nat) \<Rightarrow> string \<Rightarrow> (string \<rightharpoonup> nat)" where
  "count_step childCountByParent line =
     (let lv = heading_level line in
      if lv = 0 then childCountByParent
      else
        (let parentLevel = lv - 1 in
         if parentLevel > 0 then
           (let key = parentKey [] parentLevel (Map.empty parentLevel)
            in childCountByParent
                 (key \<mapsto> (case childCountByParent key of None \<Rightarrow> 0 | Some n \<Rightarrow> n) + 1))
         else childCountByParent))"

text \<open>Second pass (lines 123 to 173) for one line.\<close>

definition yPosition :: "(string \<rightharpoonup> nat) \<Rightarrow> state2 \<Rightarrow> nat \<Rightarrow> number" where
  "yPosition childCountByParent st lv =
     (if lv = 1 then Num (ySpacing * 2)
      else
        (let parentLevel = lv - 1;
             parent = lastNodeAtLevel st parentLevel;
             key = parentKey (heap st) parentLevel parent;
             totalChildren = (case childCountByParent key of
                                None \<Rightarrow> 1 | Some n \<Rightarrow> if n = 0 then 1 else n);
             childIndex = (case parent of
                             None \<Rightarrow> 0 | Some p \<Rightarrow> length (cell_children (heap st ! p)))
         in if childIndex = 0 then
              (case parent of None \<Rightarrow> NaN | Some p \<Rightarrow> num_add (cell_y (heap st ! p)) (- ySpacing))
            else
              (let totalHeight = (int totalChildren - 1) * ySpacing;
                   startY = (case parent of None \<Rightarrow> NaN | Some p \<Rightarrow> cell_y (heap st ! p))
               in num_add startY (int childIndex * ySpacing))))"

definition push_child2 :: "nat \<Rightarrow> NodeCell \<Rightarrow> NodeCell" where
  "push_child2 r n = n\<lparr>cell_children := cell_children n @ [r]\<rparr>"

definition step2 :: "(string \<rightharpoonup> nat) \<Rightarrow> state2 \<Rightarrow> string \<Rightarrow> state2" where
  "step2 childCountByParent st line =
     (let lv = heading_level line in
      if lv = 0 then st
      else
        (let pl = parseLine line;
             node = \<lparr>cell_id = slug (pl_label pl), cell_label = pl_label pl,
                     cell_color = pl_color pl, cell_edgeLabel = pl_edgeLabel pl,
                     cell_x = int lv * xSpacing,
                     cell_y = yPosition childCountByParent st lv,
                     cell_children = []\<rparr>;
             r = length (heap st);
             h1 = heap st @ [node]
         in if lv = 1 then
              st\<lparr>heap := h1, root := Some r,
                 lastNodeAtLevel := (lastNodeAtLevel st)(1 \<mapsto> r)\<rparr>
            else
              (let parentLevel = lv - 1;
                   h2 = (case lastNodeAtLevel st parentLevel of
                           Some p \<Rightarrow> h1[p := push_child2 r (h1 ! p)]
                         | None \<Rightarrow> h1)
               in st\<lparr>heap := h2,
                     lastNodeAtLevel := (lastNodeAtLevel st)(lv \<mapsto> r)\<rparr>)))"

definition lines2 :: "string \<Rightarrow> string list" where
  "lines2 markdown = split_lines (trim markdown)"

definition init2 :: state2 where
  "init2 = \<lparr>heap = [], root = None, lastNodeAtLevel = Map.empty\<rparr>"

definition run2 :: "string list \<Rightarrow> state2" where
  "run2 ls = foldl (step2 (foldl count_step Map.empty ls)) init2 ls"

subsection \<open>The returned value\<close>

text \<open>
  The function returns the object \<^verbatim>\<open>root\<close>, whose children are further objects. The
  model reads it out of the store as a tree, with fuel: \<open>None\<close> is running out of fuel
  (or a reference outside the store, which the program never makes).
\<close>

datatype NodeDataType =
  NodeDataType (nd_id: string) (nd_label: string) (nd_color: string)
    (nd_edgeLabel: "string option") (nd_x: int) (nd_y: number)
    (nd_children: "NodeDataType list")

fun read_node :: "nat \<Rightarrow> NodeCell list \<Rightarrow> nat \<Rightarrow> NodeDataType option" where
  "read_node 0 h r = None"
| "read_node (Suc fuel) h r =
     (if r < length h then
        (case those (map (read_node fuel h) (cell_children (h ! r))) of
           None \<Rightarrow> None
         | Some cs \<Rightarrow>
             Some (NodeDataType (cell_id (h ! r)) (cell_label (h ! r)) (cell_color (h ! r))
                     (cell_edgeLabel (h ! r)) (cell_x (h ! r)) (cell_y (h ! r)) cs))
      else None)"

definition fallback :: NodeDataType where
  "fallback = NodeDataType ''nyc'' ''NYC'' ''#4169e1'' None 250 (Num 250) []"

definition result2 :: "state2 \<Rightarrow> NodeDataType option" where
  "result2 st =
     (case root st of
        None \<Rightarrow> Some fallback
      | Some r \<Rightarrow> read_node (length (heap st)) (heap st) r)"

definition parseMarkdown2 :: "string \<Rightarrow> NodeDataType option" where
  "parseMarkdown2 markdown = result2 (run2 (lines2 markdown))"

section \<open>Stores as graphs\<close>

text \<open>
  Both schemes only ever append a fresh cell to the store and push its reference onto
  the children of at most one older cell. The shape of a store is the list of its
  children lists; \<open>subtree_refs\<close> lists the cells below a reference in the order the
  read-out visits them (parent first, children left to right).
\<close>

type_synonym graph = "nat list list"

definition wf_graph :: "graph \<Rightarrow> bool" where
  "wf_graph g \<longleftrightarrow> (\<forall>i<length g. \<forall>c\<in>set (g ! i). i < c \<and> c < length g)"

fun subtree_refs :: "nat \<Rightarrow> graph \<Rightarrow> nat \<Rightarrow> nat list" where
  "subtree_refs 0 g r = []"
| "subtree_refs (Suc fuel) g r = r # concat (map (subtree_refs fuel g) (g ! r))"

definition refs :: "graph \<Rightarrow> nat \<Rightarrow> nat list" where
  "refs g r = subtree_refs (length g) g r"

definition attach :: "graph \<Rightarrow> nat option \<Rightarrow> graph" where
  "attach g parent =
     (case parent of None \<Rightarrow> g @ [[]] | Some p \<Rightarrow> (g @ [[]])[p := g ! p @ [length g]])"

section \<open>Trees\<close>

text \<open>All nodes of a returned tree, parent first, and the nodes at a given depth.\<close>

fun mm_nodes :: "MindMapNode \<Rightarrow> MindMapNode list" where
  "mm_nodes (MindMapNode i l x y cs) = MindMapNode i l x y cs # concat (map mm_nodes cs)"

fun mm_nodes_at :: "nat \<Rightarrow> MindMapNode \<Rightarrow> MindMapNode list" where
  "mm_nodes_at 0 t = [t]"
| "mm_nodes_at (Suc d) t = concat (map (mm_nodes_at d) (node_children t))"

fun nd_nodes :: "NodeDataType \<Rightarrow> NodeDataType list" where
  "nd_nodes (NodeDataType i l c e x y cs) = NodeDataType i l c e x y cs # concat (map nd_nodes cs)"

fun nd_nodes_at :: "nat \<Rightarrow> NodeDataType \<Rightarrow> NodeDataType list" where
  "nd_nodes_at 0 t = [t]"
| "nd_nodes_at (Suc d) t = concat (map (nd_nodes_at d) (nd_children t))"

section \<open>Lemmas on stores\<close>

lemma those_map_Some:
  "(\<And>x. x \<in> set xs \<Longrightarrow> \<exists>y. f x = Some y) \<Longrightarrow> those (map f xs) = Some (map (\<lambda>x. the (f x)) xs)"
proof (induction xs)
  case Nil
  then show ?case by simp
next
  case (Cons a xs)
  from Cons.prems obtain y where "f a = Some y" by auto
  moreover have "those (map f xs) = Some (map (\<lambda>x. the (f x)) xs)"
    using Cons.prems by (intro Cons.IH) auto
  ultimately show ?case by simp
qed

lemma those_map_eq_Some:
  "those (map f xs) = Some ys \<Longrightarrow> ys = map (\<lambda>x. the (f x)) xs \<and> (\<forall>x\<in>set xs. f x \<noteq> None)"
  by (induction xs arbitrary: ys) (auto split: option.splits)

lemma wf_graphD:
  "wf_graph g \<Longrightarrow> i < length g \<Longrightarrow> c \<in> set (g ! i) \<Longrightarrow> i < c \<and> c < length g"
  unfolding wf_graph_def by blast

lemma wf_graphI:
  "(\<And>i c. i < length g \<Longrightarrow> c \<in> set (g ! i) \<Longrightarrow> i < c \<and> c < length g) \<Longrightarrow> wf_graph g"
  unfolding wf_graph_def by blast

lemma subtree_refs_fuel:
  "wf_graph g \<Longrightarrow> r < length g \<Longrightarrow> length g - r \<le> f \<Longrightarrow> length g - r \<le> f' \<Longrightarrow>
   subtree_refs f g r = subtree_refs f' g r"
proof (induction f arbitrary: r f')
  case 0
  then show ?case by simp
next
  case (Suc f)
  from Suc.prems obtain k where f': "f' = Suc k" by (cases f') auto
  have "subtree_refs f g c = subtree_refs k g c" if "c \<in> set (g ! r)" for c
  proof -
    from wf_graphD [OF Suc.prems(1,2) that] have "r < c" "c < length g" by simp_all
    with Suc.prems(1,3,4) f' show ?thesis by (intro Suc.IH) auto
  qed
  then show ?case by (simp add: f' cong: map_cong)
qed

lemma refs_rec:
  assumes "wf_graph g" "r < length g"
  shows "refs g r = r # concat (map (refs g) (g ! r))"
proof -
  obtain n where n: "length g = Suc n" using assms(2) by (cases "length g") auto
  have "subtree_refs n g c = subtree_refs (Suc n) g c" if "c \<in> set (g ! r)" for c
  proof -
    from wf_graphD [OF assms that] have "r < c" "c < length g" by simp_all
    then show ?thesis using n by (intro subtree_refs_fuel [OF assms(1)]) auto
  qed
  then show ?thesis by (simp add: refs_def n cong: map_cong)
qed

lemma length_attach [simp]: "length (attach g parent) = Suc (length g)"
  by (simp add: attach_def split: option.splits)

lemma attach_nth:
  "r < length g \<Longrightarrow> attach g parent ! r = (if parent = Some r then g ! r @ [length g] else g ! r)"
  by (auto simp: attach_def nth_append split: option.splits)

lemma attach_nth_new: "(\<And>p. parent = Some p \<Longrightarrow> p < length g) \<Longrightarrow> attach g parent ! length g = []"
  by (auto simp: attach_def nth_append split: option.splits)

lemma wf_attach:
  assumes wf: "wf_graph g" and par: "\<And>p. parent = Some p \<Longrightarrow> p < length g"
  shows "wf_graph (attach g parent)"
proof (rule wf_graphI)
  fix i c
  assume i: "i < length (attach g parent)" and c: "c \<in> set (attach g parent ! i)"
  show "i < c \<and> c < length (attach g parent)"
  proof (cases "i < length g")
    case True
    show ?thesis
    proof (cases "c \<in> set (g ! i)")
      case True
      from wf_graphD [OF wf \<open>i < length g\<close> this] show ?thesis by simp
    next
      case False
      with c \<open>i < length g\<close> have "c = length g"
        by (simp add: attach_nth split: if_splits)
      with \<open>i < length g\<close> show ?thesis by simp
    qed
  next
    case False
    with i have "i = length g" by simp
    with c par have False by (simp add: attach_nth_new)
    then show ?thesis ..
  qed
qed

lemma replicate_mset_plus:
  "replicate_mset (a + b) x = replicate_mset a x + replicate_mset b x"
  by (induction a) auto

lemma refs_attach:
  assumes wf: "wf_graph g" and par: "\<And>p. parent = Some p \<Longrightarrow> p < length g"
  shows "r < length g \<Longrightarrow>
    mset (refs (attach g parent) r) =
    mset (refs g r) + replicate_mset (case parent of None \<Rightarrow> 0 | Some p \<Rightarrow> count (mset (refs g r)) p) (length g)"
proof (induction "length g - r" arbitrary: r rule: less_induct)
  case less
  let ?g' = "attach g parent"
  let ?k = "\<lambda>r. (case parent of None \<Rightarrow> 0 | Some p \<Rightarrow> count (mset (refs g r)) p)"
  have wf': "wf_graph ?g'" using wf par by (rule wf_attach)
  have new: "refs ?g' (length g) = [length g]"
    using refs_rec [OF wf', of "length g"] attach_nth_new [of parent g] par by simp
  have IH: "mset (refs ?g' c) = mset (refs g c) + replicate_mset (?k c) (length g)"
    if "c \<in> set (g ! r)" for c
  proof -
    from wf_graphD [OF wf less.prems that] have "r < c" "c < length g" by simp_all
    then show ?thesis by (intro less.hyps) auto
  qed
  have sum: "mset (concat (map (refs ?g') cs)) =
      mset (concat (map (refs g) cs)) + replicate_mset (sum_list (map ?k cs)) (length g)"
    if "set cs \<subseteq> set (g ! r)" for cs
    using that by (induction cs) (auto simp: IH replicate_mset_plus split: option.splits)
  have cnt: "?k r = (if parent = Some r then 1 else 0) + sum_list (map ?k (g ! r))"
  proof (cases parent)
    case None
    then show ?thesis by simp
  next
    case (Some p)
    have "count (mset (concat (map (refs g) cs))) p = sum_list (map (\<lambda>c. count (mset (refs g c)) p) cs)" for cs
      by (induction cs) auto
    then show ?thesis using Some refs_rec [OF wf less.prems] by auto
  qed
  show ?case
  proof (cases "parent = Some r")
    case True
    then show ?thesis
      using refs_rec [OF wf' , of r] refs_rec [OF wf less.prems] less.prems sum [of "g ! r"] new cnt
      by (simp add: attach_nth)
  next
    case False
    then show ?thesis
      using refs_rec [OF wf' , of r] refs_rec [OF wf less.prems] less.prems sum [of "g ! r"] cnt
      by (simp add: attach_nth)
  qed
qed

section \<open>The first scheme: invariants of the loop\<close>

declare pop_stack.simps [simp del]

definition graph1 :: "store1 \<Rightarrow> graph" where
  "graph1 h = map children h"

definition new_node :: "string \<Rightarrow> MarkdownNode" where
  "new_node line = \<lparr>level = int (heading_level line), content = trim (strip_heading line), children = []\<rparr>"

lemma pop_stack_take:
  "stack \<noteq> [] \<Longrightarrow>
   \<exists>k. 0 < k \<and> k \<le> length stack \<and> pop_stack h stack lv = take k stack \<and>
       (\<forall>j. k \<le> j \<and> j < length stack \<longrightarrow> lv \<le> level (h ! (stack ! j))) \<and>
       (1 < k \<longrightarrow> level (h ! (stack ! (k - 1))) < lv)"
proof (induction h stack lv rule: pop_stack.induct)
  case (1 h stack lv)
  show ?case
  proof (cases "length stack > 1 \<and> level (h ! last stack) \<ge> lv")
    case True
    then have ne: "butlast stack \<noteq> []"
      by (cases stack rule: rev_cases) auto
    from "1.IH" [OF True ne] obtain k where k: "0 < k" "k \<le> length (butlast stack)"
      "pop_stack h (butlast stack) lv = take k (butlast stack)"
      "\<forall>j. k \<le> j \<and> j < length (butlast stack) \<longrightarrow> lv \<le> level (h ! (butlast stack ! j))"
      "1 < k \<longrightarrow> level (h ! (butlast stack ! (k - 1))) < lv"
      by blast
    have kl: "k < length stack" using k(2) True by auto
    have eq: "pop_stack h stack lv = take k stack"
      using True k(3) take_butlast [OF kl] by (subst pop_stack.simps) simp
    have hi: "lv \<le> level (h ! (stack ! j))" if "k \<le> j" "j < length stack" for j
    proof (cases "j < length (butlast stack)")
      case True
      then show ?thesis using k(4) that by (auto simp: nth_butlast)
    next
      case False
      with that have "j = length stack - 1" by simp
      then have "stack ! j = last stack" using "1.prems" by (simp add: last_conv_nth)
      then show ?thesis using True by simp
    qed
    have lo: "1 < k \<longrightarrow> level (h ! (stack ! (k - 1))) < lv"
      using k(1,2,5) by (auto simp: nth_butlast)
    show ?thesis using k(1,2) eq hi lo by (intro exI [of _ k]) auto
  next
    case False
    have eq: "pop_stack h stack lv = stack"
      using False by (subst pop_stack.simps) auto
    have "1 < length stack \<longrightarrow> level (h ! (stack ! (length stack - 1))) < lv"
      using False "1.prems" by (auto simp: last_conv_nth)
    then show ?thesis using eq "1.prems" by (intro exI [of _ "length stack"]) auto
  qed
qed

lemma step1_char:
  assumes ne: "stack \<noteq> []" and bound: "\<forall>r\<in>set stack. r < length h"
  shows "\<exists>k. 0 < k \<and> k \<le> length stack \<and>
     (\<forall>j. k \<le> j \<and> j < length stack \<longrightarrow> int (heading_level line) \<le> level (h ! (stack ! j))) \<and>
     (1 < k \<longrightarrow> level (h ! (stack ! (k - 1))) < int (heading_level line)) \<and>
     step1 (h, stack) line =
       ((h @ [new_node line])[stack ! (k - 1) := push_child (length h) (h ! (stack ! (k - 1)))],
        take k stack @ [length h])"
proof -
  let ?h1 = "h @ [new_node line]"
  let ?lv = "int (heading_level line)"
  from pop_stack_take [OF ne, of ?h1 ?lv] obtain k where k: "0 < k" "k \<le> length stack"
    "pop_stack ?h1 stack ?lv = take k stack"
    "\<forall>j. k \<le> j \<and> j < length stack \<longrightarrow> ?lv \<le> level (?h1 ! (stack ! j))"
    "1 < k \<longrightarrow> level (?h1 ! (stack ! (k - 1))) < ?lv"
    by blast
  have old: "?h1 ! (stack ! j) = h ! (stack ! j)" if "j < length stack" for j
    using that bound by (simp add: nth_append)
  have "take k stack \<noteq> []" using k(1) ne by simp
  then have top: "last (take k stack) = stack ! (k - 1)"
    using k(1,2) by (simp add: last_conv_nth min_def)
  have "step1 (h, stack) line =
       (?h1[stack ! (k - 1) := push_child (length h) (h ! (stack ! (k - 1)))], take k stack @ [length h])"
    using k(1,2,3) top old [of "k - 1"] by (simp add: step1_def Let_def new_node_def)
  moreover have "\<forall>j. k \<le> j \<and> j < length stack \<longrightarrow> ?lv \<le> level (h ! (stack ! j))"
    using k(4) old by auto
  moreover have "1 < k \<longrightarrow> level (h ! (stack ! (k - 1))) < ?lv"
    using k(1,2,5) old [of "k - 1"] by auto
  ultimately show ?thesis using k(1,2) by blast
qed

definition inv1 :: "store1 \<times> nat list \<Rightarrow> bool" where
  "inv1 st \<longleftrightarrow>
     (let h = fst st; stack = snd st in
        h \<noteq> [] \<and> wf_graph (graph1 h) \<and> stack \<noteq> [] \<and> hd stack = 0 \<and>
        (\<forall>r\<in>set stack. r < length h) \<and>
        level (h ! 0) = -1 \<and> (\<forall>i. 0 < i \<and> i < length h \<longrightarrow> 0 \<le> level (h ! i)) \<and>
        (1 < length h \<longrightarrow> children (h ! 0) \<noteq> [] \<and> hd (children (h ! 0)) = 1) \<and>
        mset (refs (graph1 h) 0) = mset [0..<length h])"

lemma inv1_init: "inv1 init1"
proof -
  have "wf_graph (graph1 [root_node])"
    by (rule wf_graphI) (simp add: graph1_def root_node_def)
  then show ?thesis
    by (auto simp: inv1_def init1_def root_node_def graph1_def refs_def)
qed

lemma graph1_step:
  "p < length h \<Longrightarrow>
   graph1 ((h @ [new_node line])[p := push_child (length h) (h ! p)]) = attach (graph1 h) (Some p)"
  by (simp add: graph1_def attach_def map_update push_child_def new_node_def)

lemma inv1_step:
  assumes "inv1 st"
  shows "inv1 (step1 st line)"
proof -
  obtain h stack where st: "st = (h, stack)" by (cases st)
  from assms st have ne: "stack \<noteq> []" and bound: "\<forall>r\<in>set stack. r < length h"
    and hne: "h \<noteq> []" and wf: "wf_graph (graph1 h)" and hd0: "hd stack = 0"
    and l0: "level (h ! 0) = -1" and lpos: "\<forall>i. 0 < i \<and> i < length h \<longrightarrow> 0 \<le> level (h ! i)"
    and c0: "1 < length h \<longrightarrow> children (h ! 0) \<noteq> [] \<and> hd (children (h ! 0)) = 1"
    and ms: "mset (refs (graph1 h) 0) = mset [0..<length h]"
    by (simp_all add: inv1_def Let_def)
  from step1_char [OF ne bound, of line] obtain k where k: "0 < k" "k \<le> length stack"
    and s: "step1 (h, stack) line =
       ((h @ [new_node line])[stack ! (k - 1) := push_child (length h) (h ! (stack ! (k - 1)))],
        take k stack @ [length h])"
    by blast
  let ?p = "stack ! (k - 1)"
  let ?h' = "(h @ [new_node line])[?p := push_child (length h) (h ! ?p)]"
  have p: "?p < length h" using k bound by (simp add: nth_mem)
  have g: "graph1 ?h' = attach (graph1 h) (Some ?p)" using p by (rule graph1_step)
  have lg: "length (graph1 h) = length h" by (simp add: graph1_def)
  have wf': "wf_graph (graph1 ?h')" unfolding g using wf p lg by (intro wf_attach) auto
  have cnt: "count (mset (refs (graph1 h) 0)) ?p = 1"
    using p by (simp add: ms)
  have ms': "mset (refs (graph1 ?h') 0) = mset [0..<length ?h']"
    unfolding g using refs_attach [OF wf, of "Some ?p" 0] p hne cnt lg ms by simp
  have stack': "take k stack @ [length h] \<noteq> []" "hd (take k stack @ [length h]) = 0"
    "\<forall>r\<in>set (take k stack @ [length h]). r < length ?h'"
    using k ne hd0 bound by (auto simp: hd_append less_SucI dest: in_set_takeD)
  have nth': "?h' ! i = (if i = ?p then push_child (length h) (h ! ?p) else h ! i)" if "i < length h" for i
    using that p by (simp add: nth_list_update nth_append)
  have l0': "level (?h' ! 0) = -1"
    using nth' [of 0] hne l0 by (auto simp: push_child_def)
  have lpos': "\<forall>i. 0 < i \<and> i < length ?h' \<longrightarrow> 0 \<le> level (?h' ! i)"
  proof (intro allI impI)
    fix i assume i: "0 < i \<and> i < length ?h'"
    show "0 \<le> level (?h' ! i)"
    proof (cases "i < length h")
      case True
      then show ?thesis using nth' [of i] lpos i by (auto simp: push_child_def)
    next
      case False
      with i have "i = length h" by simp
      then show ?thesis using p by (simp add: nth_list_update nth_append new_node_def)
    qed
  qed
  have c0': "children (?h' ! 0) \<noteq> [] \<and> hd (children (?h' ! 0)) = 1"
  proof (cases "?p = 0")
    case True
    show ?thesis
    proof (cases "1 < length h")
      case True
      then show ?thesis using c0 nth' [of 0] hne by (auto simp: push_child_def)
    next
      case False
      with hne have one: "length h = 1" by (cases h) auto
      have "children (h ! 0) = []"
      proof (cases "children (h ! 0)")
        case Nil
        then show ?thesis .
      next
        case (Cons c cs)
        then have "c \<in> set (graph1 h ! 0)" using hne by (simp add: graph1_def)
        moreover have "0 < length (graph1 h)" using hne by (simp add: graph1_def)
        ultimately have "0 < c \<and> c < length (graph1 h)" using wf by (intro wf_graphD)
        with one show ?thesis by (auto simp: graph1_def)
      qed
      then show ?thesis using nth' [of 0] one \<open>?p = 0\<close> by (simp add: push_child_def)
    qed
  next
    case False
    with p have "1 < length h" by simp
    then show ?thesis using c0 nth' [of 0] False hne by simp
  qed
  show ?thesis
    unfolding st s inv1_def Let_def fst_conv snd_conv
    using wf' ms' stack' l0' lpos' c0' by simp
qed

lemma inv1_foldl: "inv1 st \<Longrightarrow> inv1 (foldl step1 st ls)"
  by (induction ls arbitrary: st) (simp_all add: inv1_step)

lemma inv1_run1: "inv1 (run1 ls)"
  unfolding run1_def by (rule inv1_foldl [OF inv1_init])

lemma length_step1: "length (fst (step1 st line)) = Suc (length (fst st))"
  by (simp add: step1_def Let_def)

lemma length_foldl_step1: "length (fst (foldl step1 st ls)) = length (fst st) + length ls"
  by (induction ls arbitrary: st) (auto simp: length_step1)

lemma length_run1: "length (fst (run1 ls)) = Suc (length ls)"
  by (simp add: run1_def length_foldl_step1 init1_def)

lemma convertToMindMap_Some:
  "wf_graph (graph1 h) \<Longrightarrow> r < length h \<Longrightarrow> length h - r \<le> f \<Longrightarrow>
   \<exists>t. convertToMindMap f h r lv idx = Some t"
proof (induction f arbitrary: r lv idx)
  case 0
  then show ?case by simp
next
  case (Suc f)
  let ?g = "\<lambda>(child, i). convertToMindMap f h child (lv + 1) i"
  let ?zs = "zip (children (h ! r)) [0..<length (children (h ! r))]"
  have "\<exists>y. ?g z = Some y" if "z \<in> set ?zs" for z
  proof -
    obtain c i where z: "z = (c, i)" by (cases z)
    with that have "c \<in> set (children (h ! r))" by (auto dest: set_zip_leftD)
    then have "c \<in> set (graph1 h ! r)" using Suc.prems(2) by (simp add: graph1_def)
    from wf_graphD [OF Suc.prems(1) _ this] Suc.prems(2)
    have "r < c" "c < length h" by (simp_all add: graph1_def)
    with Suc.prems(3) have "\<exists>t. convertToMindMap f h c (lv + 1) i = Some t"
      by (intro Suc.IH [OF Suc.prems(1)]) auto
    then show ?thesis by (simp add: z)
  qed
  then have "those (map ?g ?zs) = Some (map (\<lambda>x. the (?g x)) ?zs)"
    by (rule those_map_Some)
  then show ?case using Suc.prems by simp
qed

lemma result1_returns:
  assumes "inv1 (h, stack)" "1 < length h"
  shows "\<exists>t. result1 h = Inr t"
proof -
  from assms have wf: "wf_graph (graph1 h)" and c: "children (h ! 0) \<noteq> []"
    by (simp_all add: inv1_def Let_def)
  then obtain c cs where cs: "children (h ! 0) = c # cs" by (cases "children (h ! 0)") auto
  moreover from assms(2) have "h \<noteq> []" by auto
  ultimately have "c \<in> set (graph1 h ! 0)" by (simp add: graph1_def)
  moreover have "0 < length (graph1 h)" using assms(2) by (auto simp: graph1_def)
  ultimately have "0 < c \<and> c < length (graph1 h)" using wf by (intro wf_graphD)
  then have "c < length h" by (simp add: graph1_def)
  from convertToMindMap_Some [OF wf this, of "length h" 0 0]
  show ?thesis by (auto simp: result1_def cs)
qed

lemma parseMarkdown1_returns:
  assumes "lines1 s \<noteq> []"
  shows "\<exists>t. parseMarkdown1 s = Inr t"
proof -
  obtain h stack where r: "run1 (lines1 s) = (h, stack)" by (cases "run1 (lines1 s)")
  have "inv1 (h, stack)" using inv1_run1 [of "lines1 s"] r by simp
  moreover have "1 < length h" using length_run1 [of "lines1 s"] r assms by simp
  ultimately show ?thesis using r by (simp add: parseMarkdown1_def result1_returns)
qed

lemma nearest_open_ancestor:
  assumes "(h, stack) = run1 ls" and "(h', stack') = step1 (h, stack) line"
  shows "\<exists>k<length stack.
           level (h ! (stack ! k)) < int (heading_level line) \<and>
           (\<forall>j. k < j \<and> j < length stack \<longrightarrow> int (heading_level line) \<le> level (h ! (stack ! j))) \<and>
           stack' = take (Suc k) stack @ [length h] \<and>
           children (h' ! (stack ! k)) = children (h ! (stack ! k)) @ [length h] \<and>
           content (h' ! length h) = trim (strip_heading line)"
proof -
  have inv: "inv1 (h, stack)" using inv1_run1 [of ls] assms(1) by simp
  then have ne: "stack \<noteq> []" and bound: "\<forall>r\<in>set stack. r < length h"
    and hd0: "hd stack = 0" and l0: "level (h ! 0) = -1"
    by (simp_all add: inv1_def Let_def)
  from step1_char [OF ne bound, of line] obtain k where k: "0 < k" "k \<le> length stack"
    "\<forall>j. k \<le> j \<and> j < length stack \<longrightarrow> int (heading_level line) \<le> level (h ! (stack ! j))"
    "1 < k \<longrightarrow> level (h ! (stack ! (k - 1))) < int (heading_level line)"
    and s: "step1 (h, stack) line =
       ((h @ [new_node line])[stack ! (k - 1) := push_child (length h) (h ! (stack ! (k - 1)))],
        take k stack @ [length h])"
    by blast
  let ?p = "stack ! (k - 1)"
  have p: "?p < length h" using k bound by (simp add: nth_mem)
  have low: "level (h ! ?p) < int (heading_level line)"
  proof (cases "1 < k")
    case True
    then show ?thesis using k(4) by simp
  next
    case False
    with k(1) have "k = 1" by simp
    then have "?p = 0" using hd0 ne by (simp add: hd_conv_nth)
    then show ?thesis using l0 by simp
  qed
  have h': "h' = (h @ [new_node line])[?p := push_child (length h) (h ! ?p)]"
    and st': "stack' = take k stack @ [length h]"
    using assms(2) s by simp_all
  have "children (h' ! ?p) = children (h ! ?p) @ [length h]"
    using p by (simp add: h' push_child_def)
  moreover have "content (h' ! length h) = trim (strip_heading line)"
    using p by (simp add: h' nth_list_update nth_append new_node_def)
  ultimately show ?thesis
    using k(1,2,3) low st' by (intro exI [of _ "k - 1"]) auto
qed

section \<open>The second scheme: basic invariants\<close>

definition graph2 :: "NodeCell list \<Rightarrow> graph" where
  "graph2 h = map cell_children h"

definition new_cell :: "(string \<rightharpoonup> nat) \<Rightarrow> state2 \<Rightarrow> string \<Rightarrow> NodeCell" where
  "new_cell cc st line =
     \<lparr>cell_id = slug (pl_label (parseLine line)), cell_label = pl_label (parseLine line),
      cell_color = pl_color (parseLine line), cell_edgeLabel = pl_edgeLabel (parseLine line),
      cell_x = int (heading_level line) * xSpacing,
      cell_y = yPosition cc st (heading_level line),
      cell_children = []\<rparr>"

definition parent_of :: "state2 \<Rightarrow> string \<Rightarrow> nat option" where
  "parent_of st line =
     (if heading_level line = 1 then None else lastNodeAtLevel st (heading_level line - 1))"

definition base2 :: "state2 \<Rightarrow> bool" where
  "base2 st \<longleftrightarrow>
     wf_graph (graph2 (heap st)) \<and>
     (\<forall>L p. lastNodeAtLevel st L = Some p \<longrightarrow> p < length (heap st)) \<and>
     (\<forall>r. root st = Some r \<longrightarrow> r < length (heap st))"

lemma step2_skip: "heading_level line = 0 \<Longrightarrow> step2 cc st line = st"
  by (simp add: step2_def)

lemma step2_heap:
  assumes "0 < heading_level line"
  shows "heap (step2 cc st line) =
     (case parent_of st line of
        None \<Rightarrow> heap st @ [new_cell cc st line]
      | Some p \<Rightarrow> (heap st @ [new_cell cc st line])
                    [p := push_child2 (length (heap st)) ((heap st @ [new_cell cc st line]) ! p)])"
  using assms by (auto simp: step2_def Let_def new_cell_def parent_of_def split: option.splits)

lemma step2_root:
  assumes "0 < heading_level line"
  shows "root (step2 cc st line) =
     (if heading_level line = 1 then Some (length (heap st)) else root st)"
  using assms by (auto simp: step2_def Let_def)

lemma step2_last:
  assumes "0 < heading_level line"
  shows "lastNodeAtLevel (step2 cc st line) =
     (lastNodeAtLevel st)(heading_level line \<mapsto> length (heap st))"
  using assms by (auto simp: step2_def Let_def)

lemma parent_of_bound:
  "base2 st \<Longrightarrow> parent_of st line = Some p \<Longrightarrow> p < length (heap st)"
  by (auto simp: base2_def parent_of_def split: if_splits)

lemma length_step2:
  "0 < heading_level line \<Longrightarrow> length (heap (step2 cc st line)) = Suc (length (heap st))"
  by (simp add: step2_heap split: option.splits)

lemma step2_nth:
  assumes "base2 st" "0 < heading_level line" "i < length (heap st)"
  shows "heap (step2 cc st line) ! i =
     (if parent_of st line = Some i then push_child2 (length (heap st)) (heap st ! i)
      else heap st ! i)"
  using assms parent_of_bound [OF assms(1), of line]
  by (auto simp: step2_heap nth_append nth_list_update split: option.splits)

lemma step2_nth_new:
  assumes "base2 st" "0 < heading_level line"
  shows "heap (step2 cc st line) ! length (heap st) = new_cell cc st line"
  using assms parent_of_bound [OF assms(1), of line]
  by (auto simp: step2_heap nth_append nth_list_update split: option.splits)

lemma graph2_step:
  assumes "base2 st" "0 < heading_level line"
  shows "graph2 (heap (step2 cc st line)) = attach (graph2 (heap st)) (parent_of st line)"
  using assms parent_of_bound [OF assms(1), of line]
  by (auto simp: step2_heap graph2_def attach_def map_update push_child2_def new_cell_def
      nth_append split: option.splits)

lemma base2_step:
  assumes "base2 st"
  shows "base2 (step2 cc st line)"
proof (cases "heading_level line = 0")
  case True
  then show ?thesis using assms by (simp add: step2_skip)
next
  case False
  then have pos: "0 < heading_level line" by simp
  have lg: "length (graph2 (heap st)) = length (heap st)" by (simp add: graph2_def)
  have "wf_graph (graph2 (heap (step2 cc st line)))"
    unfolding graph2_step [OF assms pos]
    using assms parent_of_bound [OF assms, of line] lg by (intro wf_attach) (auto simp: base2_def)
  then show ?thesis
    using assms by (auto simp: base2_def step2_last [OF pos] step2_root [OF pos] length_step2 [OF pos]
        less_Suc_eq split: if_splits)
qed

lemma base2_init: "base2 init2"
proof -
  have "wf_graph (graph2 [])" by (rule wf_graphI) (simp add: graph2_def)
  then show ?thesis by (simp add: base2_def init2_def)
qed

lemma base2_foldl: "base2 st \<Longrightarrow> base2 (foldl (step2 cc) st ls)"
  by (induction ls arbitrary: st) (auto intro: base2_step)

lemma base2_run2: "base2 (run2 ls)"
  unfolding run2_def by (rule base2_foldl [OF base2_init])

lemma read_node_Some:
  "wf_graph (graph2 h) \<Longrightarrow> r < length h \<Longrightarrow> length h - r \<le> f \<Longrightarrow> \<exists>t. read_node f h r = Some t"
proof (induction f arbitrary: r)
  case 0
  then show ?case by simp
next
  case (Suc f)
  have "\<exists>y. read_node f h c = Some y" if "c \<in> set (cell_children (h ! r))" for c
  proof -
    from that Suc.prems(2) have "c \<in> set (graph2 h ! r)" by (simp add: graph2_def)
    from wf_graphD [OF Suc.prems(1) _ this] Suc.prems(2)
    have "r < c" "c < length h" by (simp_all add: graph2_def)
    with Suc.prems(3) show ?thesis by (intro Suc.IH [OF Suc.prems(1)]) auto
  qed
  then have "those (map (read_node f h) (cell_children (h ! r))) =
      Some (map (\<lambda>x. the (read_node f h x)) (cell_children (h ! r)))"
    by (rule those_map_Some)
  then show ?case using Suc.prems by simp
qed

lemma result2_returns: "base2 st \<Longrightarrow> \<exists>t. result2 st = Some t"
  by (auto simp: result2_def base2_def intro: read_node_Some split: option.splits)

lemma parseMarkdown2_returns: "\<exists>t. parseMarkdown2 s = Some t"
  unfolding parseMarkdown2_def by (rule result2_returns [OF base2_run2])

lemma root_foldl_None:
  "root st = None \<Longrightarrow> \<forall>line\<in>set ls. heading_level line \<noteq> 1 \<Longrightarrow>
   root (foldl (step2 cc) st ls) = None"
proof (induction ls arbitrary: st)
  case Nil
  then show ?case by simp
next
  case (Cons l ls)
  have "root (step2 cc st l) = None"
  proof (cases "heading_level l = 0")
    case True
    then show ?thesis using Cons.prems by (simp add: step2_skip)
  next
    case False
    then show ?thesis using Cons.prems by (simp add: step2_root)
  qed
  then show ?case using Cons by simp
qed

lemma parseMarkdown2_fallback:
  "\<forall>line\<in>set (lines2 s). heading_level line \<noteq> 1 \<Longrightarrow> parseMarkdown2 s = Some fallback"
  using root_foldl_None [of init2 "lines2 s"]
  by (simp add: parseMarkdown2_def result2_def run2_def init2_def)

section \<open>The claims\<close>

text \<open>
  C1, as amended. In the second scheme every input string gives a tree, and an input
  with no line of level 1 (in particular one with no heading line, or the empty string)
  gives the fallback root. In the first scheme every input with a non-blank line gives a
  tree; a line without a leading hash is an entry of level 0 there, and no fallback
  exists.
\<close>

theorem C1_returns_tree:
  "(\<exists>t. parseMarkdown2 s = Some t) \<and>
   ((\<forall>line\<in>set (lines2 s). heading_level line \<noteq> 1) \<longrightarrow> parseMarkdown2 s = Some fallback) \<and>
   (lines1 s \<noteq> [] \<longrightarrow> (\<exists>t. parseMarkdown1 s = Inr t))"
  using parseMarkdown2_returns [of s] parseMarkdown2_fallback [of s] parseMarkdown1_returns [of s]
  by blast

theorem C1_returns_tree_witness:
  "parseMarkdown2 ''hello'' = Some fallback \<and> (\<exists>t. parseMarkdown1 ''hello'' = Inr t)"
proof -
  have a: "\<forall>line\<in>set (lines2 ''hello''). heading_level line \<noteq> 1"
    by code_simp
  have b: "lines1 ''hello'' \<noteq> []"
    by code_simp
  show ?thesis using C1_returns_tree [of "''hello''"] a b by blast
qed

text \<open>
  The claim as stated fails in the first scheme: the empty input raises a TypeError, and
  a text without headings gives the tree of its first line, not a fixed fallback node.
\<close>

theorem C1_counterexample:
  "parseMarkdown1 [] = Inl TypeError \<and>
   parseMarkdown1 ''hello'' = Inr (MindMapNode ''node-0-0'' ''hello'' 0 0 [])"
  by code_simp

text \<open>
  C3, as amended: in the first scheme, the node of a line is pushed onto the children of
  the nearest open ancestor (the topmost entry of the stack) whose level is strictly
  smaller than the line's, whatever the gap between the two levels; all entries above
  it are closed. So \<^verbatim>\<open># A\<close> followed by \<^verbatim>\<open>### D\<close> gives \<open>A\<close> with the child \<open>D\<close>.
\<close>

theorem C3_nearest_open_ancestor:
  assumes "(h, stack) = run1 ls" and "(h', stack') = step1 (h, stack) line"
  shows "(\<exists>k<length stack.
           level (h ! (stack ! k)) < int (heading_level line) \<and>
           (\<forall>j. k < j \<and> j < length stack \<longrightarrow> int (heading_level line) \<le> level (h ! (stack ! j))) \<and>
           stack' = take (Suc k) stack @ [length h] \<and>
           children (h' ! (stack ! k)) = children (h ! (stack ! k)) @ [length h] \<and>
           content (h' ! length h) = trim (strip_heading line)) \<and>
         parseMarkdown1 (''# A'' @ [CHR 0x0A] @ ''### D'') =
           Inr (MindMapNode ''node-0-0'' ''A'' 0 0 [MindMapNode ''node-1-0'' ''D'' 200 0 []])"
proof -
  have "parseMarkdown1 (''# A'' @ [CHR 0x0A] @ ''### D'') =
      Inr (MindMapNode ''node-0-0'' ''A'' 0 0 [MindMapNode ''node-1-0'' ''D'' 200 0 []])"
    by code_simp
  then show ?thesis using nearest_open_ancestor [OF assms] by blast
qed

theorem C3_nearest_open_ancestor_witness:
  "snd (step1 (run1 [''# A'']) ''### D'') = [0, 1, 2] \<and>
   children (fst (step1 (run1 [''# A'']) ''### D'') ! 1) = [2] \<and>
   content (fst (step1 (run1 [''# A'']) ''### D'') ! 2) = ''D''"
proof -
  let ?st = "run1 [''# A'']"
  let ?st' = "step1 ?st ''### D''"
  have st: "?st = ([root_node\<lparr>children := [1]\<rparr>, \<lparr>level = 1, content = ''A'', children = []\<rparr>], [0, 1])"
    by code_simp
  have lv: "heading_level ''### D'' = 3" by code_simp
  from C3_nearest_open_ancestor [of "fst ?st" "snd ?st" "[''# A'']" "fst ?st'" "snd ?st'" "''### D''"]
  obtain k where k: "k < length (snd ?st)"
    "level (fst ?st ! (snd ?st ! k)) < int (heading_level ''### D'')"
    "\<forall>j. k < j \<and> j < length (snd ?st) \<longrightarrow> int (heading_level ''### D'') \<le> level (fst ?st ! (snd ?st ! j))"
    "snd ?st' = take (Suc k) (snd ?st) @ [length (fst ?st)]"
    "children (fst ?st' ! (snd ?st ! k)) = children (fst ?st ! (snd ?st ! k)) @ [length (fst ?st)]"
    "content (fst ?st' ! length (fst ?st)) = trim (strip_heading ''### D'')"
    by auto
  have "k = 1"
  proof (rule ccontr)
    assume "k \<noteq> 1"
    with k(1) have "k = 0" by (simp add: st)
    with k(3) [rule_format, of 1] have "int (heading_level ''### D'') \<le> level (fst ?st ! (snd ?st ! 1))"
      by (simp add: st)
    then show False by (simp add: st lv)
  qed
  moreover have "trim (strip_heading ''### D'') = ''D''" by code_simp
  moreover have "length (fst ?st) = 2" "snd ?st = [0, 1]" "children (fst ?st ! 1) = []"
    by (simp_all add: st)
  ultimately show ?thesis using k(4,5,6) by simp

qed

text \<open>
  The claim as stated fails in the second scheme, which looks for a parent at exactly
  one level less: \<open>D\<close> is attached to nothing and \<open>A\<close> is returned without children.
\<close>

theorem C3_counterexample:
  "parseMarkdown2 (''# A'' @ [CHR 0x0A] @ ''### D'') =
     Some (NodeDataType ''a'' ''A'' ''#212529'' None 250 (Num 160) [])"
  by code_simp

section \<open>The first scheme: the converted tree\<close>

lemma those_map_nth:
  "those (map f xs) = Some ys \<Longrightarrow>
   length ys = length xs \<and> (\<forall>i<length xs. f (xs ! i) = Some (ys ! i))"
proof (induction xs arbitrary: ys)
  case Nil
  then show ?case by simp
next
  case (Cons a xs)
  from Cons.prems obtain y zs where y: "f a = Some y" and zs: "those (map f xs) = Some zs"
    and ys: "ys = y # zs"
    by (auto split: option.splits)
  from Cons.IH [OF zs] have "length zs = length xs" "\<forall>i<length xs. f (xs ! i) = Some (zs ! i)"
    by simp_all
  then show ?case using y ys by (auto simp: nth_Cons split: nat.splits)
qed

definition node_id_of :: "nat \<Rightarrow> nat \<Rightarrow> string" where
  "node_id_of lv idx = ''node-'' @ show_nat lv @ ''-'' @ show_nat idx"

lemma convertToMindMap_shape:
  assumes "convertToMindMap f h r lv idx = Some t"
  shows "\<exists>f'. f = Suc f' \<and> r < length h \<and>
     node_id t = node_id_of lv idx \<and> node_label t = content (h ! r) \<and>
     node_x t = int lv * 200 \<and> node_y t = int idx * 100 \<and>
     length (node_children t) = length (children (h ! r)) \<and>
     (\<forall>i<length (children (h ! r)).
        convertToMindMap f' h (children (h ! r) ! i) (lv + 1) i = Some (node_children t ! i))"
proof -
  from assms obtain f' where f: "f = Suc f'" by (cases f) auto
  from assms f have r: "r < length h" by (auto split: if_splits)
  let ?cs = "children (h ! r)"
  let ?g = "\<lambda>(child, i). convertToMindMap f' h child (lv + 1) i"
  from assms f r obtain cs where cs: "those (map ?g (zip ?cs [0..<length ?cs])) = Some cs"
    and t: "t = MindMapNode (''node-'' @ show_nat lv @ ''-'' @ show_nat idx)
                 (content (h ! r)) (int lv * 200) (int idx * 100) cs"
    by (auto split: option.splits)
  from those_map_nth [OF cs] have len: "length cs = length ?cs"
    and nth: "\<forall>i<length ?cs. ?g (zip ?cs [0..<length ?cs] ! i) = Some (cs ! i)"
    by simp_all
  have "\<forall>i<length ?cs. convertToMindMap f' h (?cs ! i) (lv + 1) i = Some (cs ! i)"
    using nth by simp
  then show ?thesis using f r t len by (simp add: node_id_of_def)
qed

lemma mm_nodes_at_conv:
  "convertToMindMap f h r lv idx = Some t \<Longrightarrow> n \<in> set (mm_nodes_at d t) \<Longrightarrow>
   \<exists>f' r' idx'. convertToMindMap f' h r' (lv + d) idx' = Some n"
proof (induction d arbitrary: f r lv idx t)
  case 0
  then show ?case by auto
next
  case (Suc d)
  from Suc.prems(2) obtain c where c: "c \<in> set (node_children t)" and n: "n \<in> set (mm_nodes_at d c)"
    by auto
  from c obtain i where i: "i < length (node_children t)" "c = node_children t ! i"
    by (auto simp: in_set_conv_nth)
  from convertToMindMap_shape [OF Suc.prems(1)] i obtain f' where
    "convertToMindMap f' h (children (h ! r) ! i) (lv + 1) i = Some c"
    by auto
  from Suc.IH [OF this n] show ?case by simp
qed

lemma mm_nodes_depth: "n \<in> set (mm_nodes t) \<Longrightarrow> \<exists>d. n \<in> set (mm_nodes_at d t)"
proof (induction t)
  case (MindMapNode i l x y cs)
  show ?case
  proof (cases "n = MindMapNode i l x y cs")
    case True
    then have "n \<in> set (mm_nodes_at 0 (MindMapNode i l x y cs))" by simp
    then show ?thesis by blast
  next
    case False
    with MindMapNode.prems obtain c where c: "c \<in> set cs" "n \<in> set (mm_nodes c)" by auto
    from MindMapNode.IH [OF c] obtain d where "n \<in> set (mm_nodes_at d c)" by blast
    with c(1) have "n \<in> set (mm_nodes_at (Suc d) (MindMapNode i l x y cs))" by auto
    then show ?thesis by blast
  qed
qed

lemma mm_children_y:
  assumes "convertToMindMap f h r lv idx = Some t"
  shows "map node_y (node_children t) = map (\<lambda>i. int i * 100) [0..<length (node_children t)]"
proof (rule nth_equalityI)
  show "length (map node_y (node_children t)) = length (map (\<lambda>i. int i * 100) [0..<length (node_children t)])"
    by simp
next
  fix i assume "i < length (map node_y (node_children t))"
  then have i: "i < length (node_children t)" by simp
  from convertToMindMap_shape [OF assms] i obtain f' where
    "convertToMindMap f' h (children (h ! r) ! i) (lv + 1) i = Some (node_children t ! i)"
    by auto
  from convertToMindMap_shape [OF this] have "node_y (node_children t ! i) = int i * 100"
    by auto
  then show "map node_y (node_children t) ! i = map (\<lambda>i. int i * 100) [0..<length (node_children t)] ! i"
    using i by simp
qed

lemma mm_children_id:
  assumes "convertToMindMap f h r lv idx = Some t"
  shows "map node_id (node_children t) = map (node_id_of (lv + 1)) [0..<length (node_children t)]"
proof (rule nth_equalityI)
  show "length (map node_id (node_children t)) = length (map (node_id_of (lv + 1)) [0..<length (node_children t)])"
    by simp
next
  fix i assume "i < length (map node_id (node_children t))"
  then have i: "i < length (node_children t)" by simp
  from convertToMindMap_shape [OF assms] i obtain f' where
    "convertToMindMap f' h (children (h ! r) ! i) (lv + 1) i = Some (node_children t ! i)"
    by auto
  from convertToMindMap_shape [OF this] have "node_id (node_children t ! i) = node_id_of (lv + 1) i"
    by auto
  then show "map node_id (node_children t) ! i = map (node_id_of (lv + 1)) [0..<length (node_children t)] ! i"
    using i by simp
qed

lemma result1_conv:
  "result1 h = Inr t \<Longrightarrow> \<exists>c. convertToMindMap (length h) h c 0 0 = Some t"
  by (auto simp: result1_def split: list.splits option.splits)

section \<open>The identifiers of the first scheme\<close>

declare show_nat.simps [simp del]

lemma of_char_digit_char: "d < 10 \<Longrightarrow> (of_char (digit_char d) :: nat) = 48 + d"
  by (simp add: digit_char_def)

lemma digit_char_inj:
  assumes "a < 10" "b < 10" "digit_char a = digit_char b"
  shows "a = b"
proof -
  have "(of_char (digit_char a) :: nat) = of_char (digit_char b)"
    by (simp only: assms(3))
  then have "48 + a = 48 + b"
    by (simp only: of_char_digit_char [OF assms(1)] of_char_digit_char [OF assms(2)])
  then show ?thesis by simp
qed

lemma digit_char_not_hyphen: "d < 10 \<Longrightarrow> digit_char d \<noteq> CHR ''-''"
  using of_char_digit_char [of d] by auto

lemma show_nat_small: "n < 10 \<Longrightarrow> show_nat n = [digit_char n]"
  by (subst show_nat.simps) simp

lemma show_nat_large:
  "\<not> n < 10 \<Longrightarrow> show_nat n = show_nat (n div 10) @ [digit_char (n mod 10)]"
  by (subst show_nat.simps) simp

lemma show_nat_ne: "show_nat n \<noteq> []"
  by (cases "n < 10") (simp_all add: show_nat_small show_nat_large)

lemma show_nat_no_hyphen: "CHR ''-'' \<notin> set (show_nat n)"
proof (induction n rule: show_nat.induct)
  case (1 n)
  show ?case
  proof (cases "n < 10")
    case True
    then show ?thesis using digit_char_not_hyphen [of n] by (auto simp: show_nat_small)
  next
    case False
    then show ?thesis
      using "1.IH" digit_char_not_hyphen [of "n mod 10"] by (auto simp: show_nat_large)
  qed
qed

lemma show_nat_inj: "show_nat n = show_nat m \<Longrightarrow> n = m"
proof (induction n arbitrary: m rule: show_nat.induct)
  case (1 n)
  show ?case
  proof (cases "n < 10")
    case n: True
    show ?thesis
    proof (cases "m < 10")
      case True
      with n "1.prems" show ?thesis by (auto simp: show_nat_small dest: digit_char_inj)
    next
      case False
      with n "1.prems" show_nat_ne [of "m div 10"] show ?thesis
        by (cases "show_nat (m div 10)") (auto simp: show_nat_small show_nat_large)
    qed
  next
    case n: False
    show ?thesis
    proof (cases "m < 10")
      case True
      with n "1.prems" show_nat_ne [of "n div 10"] show ?thesis
        by (cases "show_nat (n div 10)") (auto simp: show_nat_small show_nat_large)
    next
      case False
      with n "1.prems" have a: "show_nat (n div 10) = show_nat (m div 10)"
        and b: "digit_char (n mod 10) = digit_char (m mod 10)"
        by (simp_all add: show_nat_large)
      from "1.IH" [OF n a] have "n div 10 = m div 10" .
      moreover from b have "n mod 10 = m mod 10" by (intro digit_char_inj) simp_all
      ultimately show ?thesis by (metis div_mult_mod_eq)
    qed
  qed
qed

lemma split_at_separator:
  "x \<notin> set as \<Longrightarrow> x \<notin> set cs \<Longrightarrow> as @ x # bs = cs @ x # ds \<Longrightarrow> as = cs \<and> bs = ds"
proof (induction as arbitrary: cs)
  case Nil
  then show ?case by (cases cs) auto
next
  case (Cons a as)
  then show ?case by (cases cs) auto
qed

lemma node_id_of_inj: "node_id_of a b = node_id_of c d \<Longrightarrow> a = c \<and> b = d"
proof -
  assume "node_id_of a b = node_id_of c d"
  then have "show_nat a @ CHR ''-'' # show_nat b = show_nat c @ CHR ''-'' # show_nat d"
    by (simp add: node_id_of_def)
  from split_at_separator [OF show_nat_no_hyphen show_nat_no_hyphen this]
  show ?thesis by (auto dest: show_nat_inj)
qed

lemma distinct_node_ids: "distinct (map (node_id_of lv) [0..<k])"
  by (auto simp: distinct_map inj_on_def dest: node_id_of_inj)

lemma distinct_index_ys: "distinct (map (\<lambda>i. int i * 100) [0..<k])"
  by (auto simp: distinct_map inj_on_def)

section \<open>The second scheme: coordinates\<close>

definition child_y :: "number \<Rightarrow> nat \<Rightarrow> number" where
  "child_y py k = (if k = 0 then num_add py (- ySpacing) else num_add py (int k * ySpacing))"

lemma yPosition_child:
  "lv \<noteq> 1 \<Longrightarrow> lastNodeAtLevel st (lv - 1) = Some p \<Longrightarrow>
   yPosition cc st lv = child_y (cell_y (heap st ! p)) (length (cell_children (heap st ! p)))"
  by (simp add: yPosition_def child_y_def Let_def)

lemma yPosition_root: "lv = 1 \<Longrightarrow> yPosition cc st lv = Num (ySpacing * 2)"
  by (simp add: yPosition_def)

text \<open>A step leaves every field of an older cell but its children as it was.\<close>

lemma step2_old_cell:
  assumes "base2 st" "0 < heading_level line" "i < length (heap st)"
  shows "cell_id (heap (step2 cc st line) ! i) = cell_id (heap st ! i)"
    and "cell_label (heap (step2 cc st line) ! i) = cell_label (heap st ! i)"
    and "cell_color (heap (step2 cc st line) ! i) = cell_color (heap st ! i)"
    and "cell_edgeLabel (heap (step2 cc st line) ! i) = cell_edgeLabel (heap st ! i)"
    and "cell_x (heap (step2 cc st line) ! i) = cell_x (heap st ! i)"
    and "cell_y (heap (step2 cc st line) ! i) = cell_y (heap st ! i)"
    and "cell_children (heap (step2 cc st line) ! i) =
           (if parent_of st line = Some i then cell_children (heap st ! i) @ [length (heap st)]
            else cell_children (heap st ! i))"
  by (simp_all add: step2_nth [OF assms] push_child2_def)

lemma child_bound:
  assumes "base2 st" "i < length (heap st)" "c \<in> set (cell_children (heap st ! i))"
  shows "i < c \<and> c < length (heap st)"
proof -
  from assms(1) have wf: "wf_graph (graph2 (heap st))" by (simp add: base2_def)
  from assms(2,3) have "c \<in> set (graph2 (heap st) ! i)" by (simp add: graph2_def)
  from wf_graphD [OF wf _ this] assms(2) show ?thesis by (simp add: graph2_def)
qed

definition xinv :: "state2 \<Rightarrow> bool" where
  "xinv st \<longleftrightarrow>
     (\<forall>L p. lastNodeAtLevel st L = Some p \<longrightarrow> cell_x (heap st ! p) = int L * xSpacing) \<and>
     (\<forall>r. root st = Some r \<longrightarrow>
        cell_x (heap st ! r) = xSpacing \<and> cell_y (heap st ! r) = Num (ySpacing * 2)) \<and>
     (\<forall>i c. i < length (heap st) \<and> c \<in> set (cell_children (heap st ! i)) \<longrightarrow>
        cell_x (heap st ! c) = cell_x (heap st ! i) + xSpacing)"

lemma xinv_last: "xinv st \<Longrightarrow> lastNodeAtLevel st L = Some p \<Longrightarrow> cell_x (heap st ! p) = int L * xSpacing"
  unfolding xinv_def by blast

lemma xinv_root:
  "xinv st \<Longrightarrow> root st = Some r \<Longrightarrow>
   cell_x (heap st ! r) = xSpacing \<and> cell_y (heap st ! r) = Num (ySpacing * 2)"
  unfolding xinv_def by blast

lemma xinv_child:
  "xinv st \<Longrightarrow> i < length (heap st) \<Longrightarrow> c \<in> set (cell_children (heap st ! i)) \<Longrightarrow>
   cell_x (heap st ! c) = cell_x (heap st ! i) + xSpacing"
  unfolding xinv_def by blast

lemma xinv_step:
  assumes b: "base2 st" and x: "xinv st"
  shows "xinv (step2 cc st line)"
proof (cases "heading_level line = 0")
  case True
  then show ?thesis using x by (simp add: step2_skip)
next
  case False
  then have pos: "0 < heading_level line" by simp
  let ?st' = "step2 cc st line"
  let ?n = "length (heap st)"
  note old = step2_old_cell [OF b pos]
  have new: "heap ?st' ! ?n = new_cell cc st line" by (rule step2_nth_new [OF b pos])
  have lastb: "p < ?n" if "lastNodeAtLevel st L = Some p" for L p
    using b that by (auto simp: base2_def)
  have rootb: "r < ?n" if "root st = Some r" for r
    using b that by (auto simp: base2_def)
  have 1: "cell_x (heap ?st' ! p) = int L * xSpacing" if "lastNodeAtLevel ?st' L = Some p" for L p
  proof (cases "L = heading_level line")
    case True
    with that have "p = ?n" by (simp add: step2_last [OF pos])
    then show ?thesis using True new by (simp add: new_cell_def)
  next
    case False
    with that have l: "lastNodeAtLevel st L = Some p" by (simp add: step2_last [OF pos])
    from old(5) [OF lastb [OF l]] xinv_last [OF x l] show ?thesis by simp
  qed
  have 2: "cell_x (heap ?st' ! r) = xSpacing \<and> cell_y (heap ?st' ! r) = Num (ySpacing * 2)"
    if "root ?st' = Some r" for r
  proof (cases "heading_level line = 1")
    case True
    with that have "r = ?n" by (simp add: step2_root [OF pos])
    then show ?thesis using True new by (simp add: new_cell_def yPosition_root)
  next
    case False
    with that have r: "root st = Some r" by (simp add: step2_root [OF pos])
    from old(5,6) [OF rootb [OF r]] xinv_root [OF x r] show ?thesis by simp
  qed
  have 3: "cell_x (heap ?st' ! c) = cell_x (heap ?st' ! i) + xSpacing"
    if i: "i < length (heap ?st')" and c: "c \<in> set (cell_children (heap ?st' ! i))" for i c
  proof (cases "i < ?n")
    case True
    show ?thesis
    proof (cases "c \<in> set (cell_children (heap st ! i))")
      case c_old: True
      from child_bound [OF b True c_old] have "c < ?n" by simp
      from old(5) [OF this] old(5) [OF True] xinv_child [OF x True c_old] show ?thesis by simp
    next
      case False
      with c True have cn: "c = ?n" and par: "parent_of st line = Some i"
        by (auto simp: old(7) split: if_splits)
      from par have ne1: "heading_level line \<noteq> 1"
        and l: "lastNodeAtLevel st (heading_level line - 1) = Some i"
        by (auto simp: parent_of_def split: if_splits)
      from ne1 pos have "int (heading_level line - 1) = int (heading_level line) - 1" by simp
      with xinv_last [OF x l] have "cell_x (heap st ! i) = (int (heading_level line) - 1) * xSpacing"
        by simp
      then show ?thesis using cn new old(5) [OF True] by (simp add: new_cell_def algebra_simps)
    qed
  next
    case False
    with i have "i = ?n" by (simp add: length_step2 [OF pos])
    with c new show ?thesis by (simp add: new_cell_def)
  qed
  show ?thesis unfolding xinv_def using 1 2 3 by blast
qed

lemma xinv_init: "xinv init2"
  by (simp add: xinv_def init2_def)

lemma xinv_foldl: "base2 st \<Longrightarrow> xinv st \<Longrightarrow> xinv (foldl (step2 cc) st ls)"
  by (induction ls arbitrary: st) (simp_all add: xinv_step base2_step)

lemma xinv_run2: "xinv (run2 ls)"
  unfolding run2_def by (rule xinv_foldl [OF base2_init xinv_init])

definition yinv :: "NodeCell list \<Rightarrow> bool" where
  "yinv h \<longleftrightarrow>
     (\<forall>i<length h. map (\<lambda>c. cell_y (h ! c)) (cell_children (h ! i)) =
        map (child_y (cell_y (h ! i))) [0..<length (cell_children (h ! i))])"

lemma yinvD:
  "yinv h \<Longrightarrow> i < length h \<Longrightarrow>
   map (\<lambda>c. cell_y (h ! c)) (cell_children (h ! i)) =
   map (child_y (cell_y (h ! i))) [0..<length (cell_children (h ! i))]"
  unfolding yinv_def by blast

lemma yinv_step:
  assumes b: "base2 st" and y: "yinv (heap st)"
  shows "yinv (heap (step2 cc st line))"
proof (cases "heading_level line = 0")
  case True
  then show ?thesis using y by (simp add: step2_skip)
next
  case False
  then have pos: "0 < heading_level line" by simp
  let ?h = "heap st"
  let ?h' = "heap (step2 cc st line)"
  let ?n = "length (heap st)"
  note old = step2_old_cell [OF b pos]
  have new: "?h' ! ?n = new_cell cc st line" by (rule step2_nth_new [OF b pos])
  have "map (\<lambda>c. cell_y (?h' ! c)) (cell_children (?h' ! i)) =
        map (child_y (cell_y (?h' ! i))) [0..<length (cell_children (?h' ! i))]"
    if i: "i < length ?h'" for i
  proof (cases "i < ?n")
    case True
    have same: "map (\<lambda>c. cell_y (?h' ! c)) (cell_children (?h ! i)) =
        map (\<lambda>c. cell_y (?h ! c)) (cell_children (?h ! i))"
    proof (rule map_cong [OF refl])
      fix c assume "c \<in> set (cell_children (?h ! i))"
      from child_bound [OF b True this] have "c < ?n" by simp
      then show "cell_y (?h' ! c) = cell_y (?h ! c)" by (rule old(6))
    qed
    show ?thesis
    proof (cases "parent_of st line = Some i")
      case par: True
      then have ne1: "heading_level line \<noteq> 1"
        and l: "lastNodeAtLevel st (heading_level line - 1) = Some i"
        by (auto simp: parent_of_def split: if_splits)
      have "cell_y (?h' ! ?n) = child_y (cell_y (?h ! i)) (length (cell_children (?h ! i)))"
        using new yPosition_child [OF ne1 l, of cc] by (simp add: new_cell_def)
      then show ?thesis
        using par same yinvD [OF y True] by (simp add: old(6,7) [OF True])
    next
      case False
      then show ?thesis using same yinvD [OF y True] by (simp add: old(6,7) [OF True])
    qed
  next
    case False
    with i have "i = ?n" by (simp add: length_step2 [OF pos])
    then show ?thesis using new by (simp add: new_cell_def)
  qed
  then show ?thesis unfolding yinv_def by blast
qed

lemma yinv_foldl: "base2 st \<Longrightarrow> yinv (heap st) \<Longrightarrow> yinv (heap (foldl (step2 cc) st ls))"
  by (induction ls arbitrary: st) (simp_all add: yinv_step base2_step)

lemma yinv_run2: "yinv (heap (run2 ls))"
  unfolding run2_def by (rule yinv_foldl [OF base2_init]) (simp add: yinv_def init2_def)

section \<open>The second scheme: the returned tree\<close>

lemma read_node_shape:
  assumes "read_node f h r = Some t"
  shows "\<exists>f'. f = Suc f' \<and> r < length h \<and>
     nd_id t = cell_id (h ! r) \<and> nd_label t = cell_label (h ! r) \<and>
     nd_color t = cell_color (h ! r) \<and> nd_edgeLabel t = cell_edgeLabel (h ! r) \<and>
     nd_x t = cell_x (h ! r) \<and> nd_y t = cell_y (h ! r) \<and>
     length (nd_children t) = length (cell_children (h ! r)) \<and>
     (\<forall>i<length (cell_children (h ! r)).
        read_node f' h (cell_children (h ! r) ! i) = Some (nd_children t ! i))"
proof -
  from assms obtain f' where f: "f = Suc f'" by (cases f) auto
  from assms f have r: "r < length h" by (auto split: if_splits)
  let ?cs = "cell_children (h ! r)"
  from assms f r obtain cs where cs: "those (map (read_node f' h) ?cs) = Some cs"
    and t: "t = NodeDataType (cell_id (h ! r)) (cell_label (h ! r)) (cell_color (h ! r))
                 (cell_edgeLabel (h ! r)) (cell_x (h ! r)) (cell_y (h ! r)) cs"
    by (auto split: option.splits)
  from those_map_nth [OF cs] show ?thesis using f r t by simp
qed

lemma nd_nodes_unfold: "nd_nodes t = t # concat (map nd_nodes (nd_children t))"
  by (cases t) simp

lemma nd_nodes_at_x:
  assumes x: "xinv st"
  shows "read_node f (heap st) r = Some t \<Longrightarrow> n \<in> set (nd_nodes_at d t) \<Longrightarrow>
         nd_x n = cell_x (heap st ! r) + int d * xSpacing"
proof (induction d arbitrary: f r t)
  case 0
  then show ?case using read_node_shape [OF "0.prems"(1)] by auto
next
  case (Suc d)
  from Suc.prems(2) obtain c where c: "c \<in> set (nd_children t)" and n: "n \<in> set (nd_nodes_at d c)"
    by auto
  from c obtain i where i: "i < length (nd_children t)" "c = nd_children t ! i"
    by (auto simp: in_set_conv_nth)
  from read_node_shape [OF Suc.prems(1)] i obtain f' where r: "r < length (heap st)"
    and len: "length (nd_children t) = length (cell_children (heap st ! r))"
    and rd: "read_node f' (heap st) (cell_children (heap st ! r) ! i) = Some c"
    by auto
  have "cell_children (heap st ! r) ! i \<in> set (cell_children (heap st ! r))"
    using i(1) len by simp
  from xinv_child [OF x r this] Suc.IH [OF rd n] show ?case
    by (simp add: algebra_simps)
qed

lemma child_y_Num: "child_y (Num a) k \<noteq> NaN"
  by (simp add: child_y_def)

lemma distinct_child_ys: "distinct (map (child_y (Num a)) [0..<k])"
  by (auto simp: distinct_map inj_on_def child_y_def ySpacing_def split: if_splits)

lemma nd_nodes_y:
  assumes y: "yinv h"
  shows "read_node f h r = Some t \<Longrightarrow> cell_y (h ! r) \<noteq> NaN \<Longrightarrow> n \<in> set (nd_nodes t) \<Longrightarrow>
         nd_y n \<noteq> NaN \<and>
         map nd_y (nd_children n) = map (child_y (nd_y n)) [0..<length (nd_children n)]"
proof (induction f arbitrary: r t)
  case 0
  then show ?case by simp
next
  case (Suc f)
  from read_node_shape [OF Suc.prems(1)] have r: "r < length h"
    and ty: "nd_y t = cell_y (h ! r)"
    and len: "length (nd_children t) = length (cell_children (h ! r))"
    and rd: "\<forall>i<length (cell_children (h ! r)).
               read_node f h (cell_children (h ! r) ! i) = Some (nd_children t ! i)"
    by auto
  have cy: "nd_y (nd_children t ! i) = child_y (cell_y (h ! r)) i"
    if i: "i < length (nd_children t)" for i
  proof -
    from rd i len have "read_node f h (cell_children (h ! r) ! i) = Some (nd_children t ! i)"
      by simp
    from read_node_shape [OF this]
    have "nd_y (nd_children t ! i) = cell_y (h ! (cell_children (h ! r) ! i))" by auto
    also have "\<dots> = map (\<lambda>c. cell_y (h ! c)) (cell_children (h ! r)) ! i"
      using i len by simp
    also have "\<dots> = child_y (cell_y (h ! r)) i"
      using i len by (simp add: yinvD [OF y r])
    finally show ?thesis .
  qed
  show ?case
  proof (cases "n = t")
    case True
    have "map nd_y (nd_children t) = map (child_y (nd_y t)) [0..<length (nd_children t)]"
      by (rule nth_equalityI) (simp_all add: cy ty)
    then show ?thesis using True ty Suc.prems(2) by simp
  next
    case False
    with Suc.prems(3) obtain c where c: "c \<in> set (nd_children t)" and n: "n \<in> set (nd_nodes c)"
      by (subst (asm) nd_nodes_unfold) auto
    from c obtain i where i: "i < length (nd_children t)" "c = nd_children t ! i"
      by (auto simp: in_set_conv_nth)
    from rd i len have rdc: "read_node f h (cell_children (h ! r) ! i) = Some c" by simp
    obtain a where a: "cell_y (h ! r) = Num a" using Suc.prems(2) by (cases "cell_y (h ! r)") auto
    from read_node_shape [OF rdc] cy [OF i(1)] i(2)
    have "cell_y (h ! (cell_children (h ! r) ! i)) = child_y (Num a) i" by (auto simp: a)
    then have "cell_y (h ! (cell_children (h ! r) ! i)) \<noteq> NaN" by (simp add: child_y_Num)
    from Suc.IH [OF rdc this n] show ?thesis .
  qed
qed

lemma nd_nodes_cell:
  "read_node f h r = Some t \<Longrightarrow> n \<in> set (nd_nodes t) \<Longrightarrow>
   \<exists>f' r'. r' < length h \<and> read_node f' h r' = Some n"
proof (induction f arbitrary: r t)
  case 0
  then show ?case by simp
next
  case (Suc f)
  show ?case
  proof (cases "n = t")
    case True
    then show ?thesis using Suc.prems(1) read_node_shape [OF Suc.prems(1)] by blast
  next
    case False
    with Suc.prems(2) obtain c where c: "c \<in> set (nd_children t)" and n: "n \<in> set (nd_nodes c)"
      by (subst (asm) nd_nodes_unfold) auto
    from c obtain i where i: "i < length (nd_children t)" "c = nd_children t ! i"
      by (auto simp: in_set_conv_nth)
    from read_node_shape [OF Suc.prems(1)] i
    have "read_node f h (cell_children (h ! r) ! i) = Some c" by auto
    from Suc.IH [OF this n] show ?thesis .
  qed
qed

text \<open>Every cell carries the fields that \<open>parseLine\<close> reads off one heading line.\<close>

definition cell_of_line :: "string \<Rightarrow> NodeCell \<Rightarrow> bool" where
  "cell_of_line line c \<longleftrightarrow>
     0 < heading_level line \<and>
     cell_label c = pl_label (parseLine line) \<and>
     cell_color c = pl_color (parseLine line) \<and>
     cell_edgeLabel c = pl_edgeLabel (parseLine line) \<and>
     cell_id c = slug (pl_label (parseLine line))"

definition cells_from :: "string set \<Rightarrow> NodeCell list \<Rightarrow> bool" where
  "cells_from S h \<longleftrightarrow> (\<forall>i<length h. \<exists>line\<in>S. cell_of_line line (h ! i))"

lemma cells_fromD: "cells_from S h \<Longrightarrow> i < length h \<Longrightarrow> \<exists>line\<in>S. cell_of_line line (h ! i)"
  unfolding cells_from_def by blast

lemma cells_from_step:
  assumes b: "base2 st" and c: "cells_from S (heap st)" and l: "line \<in> S"
  shows "cells_from S (heap (step2 cc st line))"
proof (cases "heading_level line = 0")
  case True
  then show ?thesis using c by (simp add: step2_skip)
next
  case False
  then have pos: "0 < heading_level line" by simp
  note old = step2_old_cell [OF b pos]
  have "\<exists>l0\<in>S. cell_of_line l0 (heap (step2 cc st line) ! i)"
    if i: "i < length (heap (step2 cc st line))" for i
  proof (cases "i < length (heap st)")
    case True
    from cells_fromD [OF c True] obtain l' where l': "l' \<in> S" "cell_of_line l' (heap st ! i)"
      by blast
    from l'(2) have "cell_of_line l' (heap (step2 cc st line) ! i)"
      by (simp add: cell_of_line_def old(1-4) [OF True])
    then show ?thesis using l'(1) by (rule bexI)
  next
    case False
    with i have "i = length (heap st)" by (simp add: length_step2 [OF pos])
    then have "cell_of_line line (heap (step2 cc st line) ! i)"
      using step2_nth_new [OF b pos, of cc] pos by (simp add: cell_of_line_def new_cell_def)
    then show ?thesis using l by (rule bexI)
  qed
  then show ?thesis unfolding cells_from_def by blast
qed

lemma cells_from_foldl:
  "base2 st \<Longrightarrow> cells_from S (heap st) \<Longrightarrow> set ls \<subseteq> S \<Longrightarrow>
   cells_from S (heap (foldl (step2 cc) st ls))"
  by (induction ls arbitrary: st) (simp_all add: cells_from_step base2_step)

lemma cells_from_run2: "cells_from (set ls) (heap (run2 ls))"
  unfolding run2_def
  by (rule cells_from_foldl [OF base2_init]) (simp_all add: cells_from_def init2_def)

lemma parseMarkdown2_cases:
  assumes "parseMarkdown2 s = Some u"
  obtains "u = fallback"
  | r where "root (run2 (lines2 s)) = Some r"
      "read_node (length (heap (run2 (lines2 s)))) (heap (run2 (lines2 s))) r = Some u"
  using assms by (auto simp: parseMarkdown2_def result2_def split: option.splits)

lemma parseMarkdown1_conv:
  assumes "parseMarkdown1 s = Inr t"
  obtains c where
    "convertToMindMap (length (fst (run1 (lines1 s)))) (fst (run1 (lines1 s))) c 0 0 = Some t"
  using assms result1_conv [of "fst (run1 (lines1 s))" t] by (auto simp: parseMarkdown1_def)

text \<open>
  C2, as amended. In the first scheme the x coordinate of a node is its depth in the
  returned tree times 200 (the root has depth 0), whatever the heading levels are. In the
  second scheme it is the number of leading hashes times 250; an edge of the tree always
  joins two consecutive levels and the root has level 1, so x is the depth plus one,
  times 250 (the fallback root is at x = 250 too).
\<close>

theorem C2_x_by_depth:
  "(parseMarkdown1 s = Inr t \<longrightarrow>
      (\<forall>d. \<forall>n\<in>set (mm_nodes_at d t). node_x n = int d * 200)) \<and>
   (parseMarkdown2 s = Some u \<longrightarrow>
      (\<forall>d. \<forall>n\<in>set (nd_nodes_at d u). nd_x n = (int d + 1) * xSpacing))"
proof (intro conjI impI allI ballI)
  fix d n
  assume p: "parseMarkdown1 s = Inr t" and n: "n \<in> set (mm_nodes_at d t)"
  from parseMarkdown1_conv [OF p] obtain c where
    "convertToMindMap (length (fst (run1 (lines1 s)))) (fst (run1 (lines1 s))) c 0 0 = Some t"
    by blast
  from mm_nodes_at_conv [OF this n] obtain f' r' idx' where
    "convertToMindMap f' (fst (run1 (lines1 s))) r' (0 + d) idx' = Some n"
    by blast
  from convertToMindMap_shape [OF this] show "node_x n = int d * 200" by auto
next
  fix d n
  assume p: "parseMarkdown2 s = Some u" and n: "n \<in> set (nd_nodes_at d u)"
  from p show "nd_x n = (int d + 1) * xSpacing"
  proof (cases rule: parseMarkdown2_cases)
    case 1
    with n show ?thesis by (cases d) (simp_all add: fallback_def xSpacing_def)
  next
    case (2 r)
    from nd_nodes_at_x [OF xinv_run2 2(2) n] xinv_root [OF xinv_run2 2(1)]
    show ?thesis by (simp add: algebra_simps)
  qed
qed

theorem C2_x_by_depth_witness:
  "parseMarkdown1 (''# A'' @ [CHR 0x0A] @ ''### B'') =
     Inr (MindMapNode ''node-0-0'' ''A'' 0 0 [MindMapNode ''node-1-0'' ''B'' 200 0 []]) \<and>
   node_x (MindMapNode ''node-1-0'' ''B'' 200 0 []) = int (Suc 0) * 200 \<and>
   parseMarkdown2 (''# A'' @ [CHR 0x0A] @ ''## B'') =
     Some (NodeDataType ''a'' ''A'' ''#212529'' None 250 (Num 160)
            [NodeDataType ''b'' ''B'' ''#212529'' None 500 (Num 80) []]) \<and>
   nd_x (NodeDataType ''b'' ''B'' ''#212529'' None 500 (Num 80) []) = (int (Suc 0) + 1) * xSpacing"
proof -
  let ?B1 = "MindMapNode ''node-1-0'' ''B'' 200 0 []"
  let ?T = "MindMapNode ''node-0-0'' ''A'' 0 0 [?B1]"
  let ?B2 = "NodeDataType ''b'' ''B'' ''#212529'' None 500 (Num 80) []"
  let ?U = "NodeDataType ''a'' ''A'' ''#212529'' None 250 (Num 160) [?B2]"
  have p1: "parseMarkdown1 (''# A'' @ [CHR 0x0A] @ ''### B'') = Inr ?T" by code_simp
  have p2: "parseMarkdown2 (''# A'' @ [CHR 0x0A] @ ''## B'') = Some ?U" by code_simp
  have m1: "?B1 \<in> set (mm_nodes_at (Suc 0) ?T)" by simp
  have m2: "?B2 \<in> set (nd_nodes_at (Suc 0) ?U)" by simp
  from C2_x_by_depth [of "''# A'' @ [CHR 0x0A] @ ''### B''" ?T u] p1 m1
  have a: "node_x ?B1 = int (Suc 0) * 200" by blast
  from C2_x_by_depth [of "''# A'' @ [CHR 0x0A] @ ''## B''" t ?U] p2 m2
  have b: "nd_x ?B2 = (int (Suc 0) + 1) * xSpacing" by blast
  from p1 a p2 b show ?thesis by blast
qed

text \<open>
  The claim as stated fails in the second scheme: the returned root, at depth 0, has
  x = 250, not 0.
\<close>

theorem C2_counterexample:
  "parseMarkdown2 ''# A'' = Some (NodeDataType ''a'' ''A'' ''#212529'' None 250 (Num 160) []) \<and>
   nd_x (NodeDataType ''a'' ''A'' ''#212529'' None 250 (Num 160) []) \<noteq> 0 * xSpacing"
  by code_simp

text \<open>
  C7: in both schemes the direct children of any node of the returned tree have pairwise
  different y coordinates (and in the second scheme none of them is \<open>NaN\<close>). The
  coordinates are part of the returned tree, which is a function of the input.
\<close>

theorem C7_sibling_y_distinct:
  "(parseMarkdown1 s = Inr t \<longrightarrow>
      (\<forall>n\<in>set (mm_nodes t). distinct (map node_y (node_children n)))) \<and>
   (parseMarkdown2 s = Some u \<longrightarrow>
      (\<forall>n\<in>set (nd_nodes u).
         distinct (map nd_y (nd_children n)) \<and> NaN \<notin> set (map nd_y (nd_children n))))"
proof (intro conjI impI ballI)
  fix n
  assume p: "parseMarkdown1 s = Inr t" and n: "n \<in> set (mm_nodes t)"
  from parseMarkdown1_conv [OF p] obtain c where
    c: "convertToMindMap (length (fst (run1 (lines1 s)))) (fst (run1 (lines1 s))) c 0 0 = Some t"
    by blast
  from mm_nodes_depth [OF n] obtain d where "n \<in> set (mm_nodes_at d t)" by blast
  from mm_nodes_at_conv [OF c this] obtain f' r' idx' where
    "convertToMindMap f' (fst (run1 (lines1 s))) r' (0 + d) idx' = Some n"
    by blast
  from mm_children_y [OF this] show "distinct (map node_y (node_children n))"
    by (simp only: distinct_index_ys)
next
  fix n
  assume p: "parseMarkdown2 s = Some u" and n: "n \<in> set (nd_nodes u)"
  have "distinct (map nd_y (nd_children n)) \<and> NaN \<notin> set (map nd_y (nd_children n))"
    using p
  proof (cases rule: parseMarkdown2_cases)
    case 1
    with n show ?thesis by (simp add: fallback_def)
  next
    case (2 r)
    from xinv_root [OF xinv_run2 2(1)] have "cell_y (heap (run2 (lines2 s)) ! r) \<noteq> NaN" by simp
    from nd_nodes_y [OF yinv_run2 2(2) this n]
    have y: "nd_y n \<noteq> NaN"
      and m: "map nd_y (nd_children n) = map (child_y (nd_y n)) [0..<length (nd_children n)]"
      by simp_all
    from y obtain a where a: "nd_y n = Num a" by (cases "nd_y n") auto
    have "distinct (map nd_y (nd_children n))"
      by (simp only: m a distinct_child_ys)
    moreover have "map nd_y (nd_children n) = map (child_y (Num a)) [0..<length (nd_children n)]"
      by (simp only: m a)
    then have "NaN \<notin> set (map nd_y (nd_children n))"
      by (auto simp: child_y_def)
    ultimately show ?thesis ..
  qed
  then show "distinct (map nd_y (nd_children n))"
    and "NaN \<notin> set (map nd_y (nd_children n))" by simp_all
qed

theorem C7_sibling_y_distinct_witness:
  "distinct (map node_y [MindMapNode ''node-1-0'' ''B'' 200 0 [],
                         MindMapNode ''node-1-1'' ''C'' 200 100 []]) \<and>
   distinct (map nd_y [NodeDataType ''b'' ''B'' ''#212529'' None 500 (Num 80) [],
                       NodeDataType ''c'' ''C'' ''#212529'' None 500 (Num 240) []])"
proof -
  let ?S = "''# A'' @ [CHR 0x0A] @ ''## B'' @ [CHR 0x0A] @ ''## C''"
  let ?cs1 = "[MindMapNode ''node-1-0'' ''B'' 200 0 [], MindMapNode ''node-1-1'' ''C'' 200 100 []]"
  let ?T = "MindMapNode ''node-0-0'' ''A'' 0 0 ?cs1"
  let ?cs2 = "[NodeDataType ''b'' ''B'' ''#212529'' None 500 (Num 80) [],
               NodeDataType ''c'' ''C'' ''#212529'' None 500 (Num 240) []]"
  let ?U = "NodeDataType ''a'' ''A'' ''#212529'' None 250 (Num 160) ?cs2"
  have p1: "parseMarkdown1 ?S = Inr ?T" by code_simp
  have p2: "parseMarkdown2 ?S = Some ?U" by code_simp
  have m1: "?T \<in> set (mm_nodes ?T)" by simp
  have m2: "?U \<in> set (nd_nodes ?U)" by simp
  from C7_sibling_y_distinct [of ?S ?T u] p1 m1
  have a: "distinct (map node_y (node_children ?T))" by blast
  from C7_sibling_y_distinct [of ?S t ?U] p2 m2
  have b: "distinct (map nd_y (nd_children ?U))" by blast
  from a b show ?thesis by (simp only: MindMapNode.sel NodeDataType.sel)
qed

section \<open>The regular expressions of parseLine, characterised\<close>

text \<open>
  What the matching functions accept, said on the text itself: a colour value is
  \<^verbatim>\<open>#\<close> followed by six hexadecimal digits of either case.
\<close>

definition is_hex_color :: "string \<Rightarrow> bool" where
  "is_hex_color c \<longleftrightarrow>
     (\<exists>hex. c = CHR ''#'' # hex \<and> length hex = 6 \<and>
            (\<forall>x\<in>set hex. x \<in> set ''0123456789abcdefABCDEF''))"

lemma isHexDigit_iff: "isHexDigit c \<longleftrightarrow> c \<in> set ''0123456789abcdefABCDEF''"
proof -
  let ?n = "of_char c :: nat"
  have img: "(of_char ` set ''0123456789abcdefABCDEF'' :: nat set) =
      {48, 49, 50, 51, 52, 53, 54, 55, 56, 57, 97, 98, 99, 100, 101, 102, 65, 66, 67, 68, 69, 70}"
    by simp
  have "c \<in> set ''0123456789abcdefABCDEF'' \<longleftrightarrow> ?n \<in> of_char ` set ''0123456789abcdefABCDEF''"
    by (rule inj_image_mem_iff [symmetric]) (simp add: inj_on_def)
  also have "\<dots> \<longleftrightarrow> (48 \<le> ?n \<and> ?n \<le> 57) \<or> (65 \<le> ?n \<and> ?n \<le> 70) \<or> (97 \<le> ?n \<and> ?n \<le> 102)"
    unfolding img by (simp only: insert_iff empty_iff) presburger
  finally show ?thesis by (simp add: isHexDigit_def Let_def)
qed

lemma color_at_iff:
  "color_at s \<longleftrightarrow>
   (\<exists>hex post. s = CHR ''['' # CHR ''#'' # hex @ CHR '']'' # post \<and> length hex = 6 \<and>
      (\<forall>x\<in>set hex. isHexDigit x))"
proof
  assume c: "color_at s"
  then have len: "9 \<le> length s" and s0: "s ! 0 = CHR ''[''" and s1: "s ! 1 = CHR ''#''"
    and hx: "list_all isHexDigit (take 6 (drop 2 s))" and s8: "s ! 8 = CHR '']''"
    by (simp_all add: color_at_def)
  from len obtain x0 x1 x2 x3 x4 x5 x6 x7 x8 post where
    s: "s = x0 # x1 # x2 # x3 # x4 # x5 # x6 # x7 # x8 # post"
    by (auto simp: Suc_le_length_iff eval_nat_numeral)
  have "s = CHR ''['' # CHR ''#'' # take 6 (drop 2 s) @ CHR '']'' # drop 9 s"
    using s0 s1 s8 unfolding s by simp
  moreover have "length (take 6 (drop 2 s)) = 6" using len by simp
  moreover have "\<forall>x\<in>set (take 6 (drop 2 s)). isHexDigit x" using hx by (simp add: list_all_iff)
  ultimately show "\<exists>hex post. s = CHR ''['' # CHR ''#'' # hex @ CHR '']'' # post \<and> length hex = 6 \<and>
      (\<forall>x\<in>set hex. isHexDigit x)"
    by blast
next
  assume "\<exists>hex post. s = CHR ''['' # CHR ''#'' # hex @ CHR '']'' # post \<and> length hex = 6 \<and>
      (\<forall>x\<in>set hex. isHexDigit x)"
  then obtain hex post where s: "s = CHR ''['' # CHR ''#'' # hex @ CHR '']'' # post"
    and l: "length hex = 6" and h: "\<forall>x\<in>set hex. isHexDigit x"
    by blast
  have "s ! 8 = CHR '']''" using l unfolding s by (simp add: nth_append nth_Cons')
  then show "color_at s" using l h unfolding s by (simp add: color_at_def list_all_iff)
qed

lemma paren_at_iff:
  "paren_at s \<longleftrightarrow>
   (\<exists>e. s = CHR ''('' # e @ [CHR '')''] \<and> (\<forall>x\<in>set e. \<not> isLineTerminator x))"
proof
  assume p: "paren_at s"
  then obtain c r where s: "s = c # r" by (cases s) (auto simp: paren_at_def)
  with p have c: "c = CHR ''(''" and r: "r \<noteq> []" and l: "last r = CHR '')''"
    and b: "list_all (\<lambda>x. \<not> isLineTerminator x) (butlast r)"
    by (simp_all add: paren_at_def)
  from r l have "r = butlast r @ [CHR '')'']" using append_butlast_last_id [of r] by simp
  with s c b show "\<exists>e. s = CHR ''('' # e @ [CHR '')''] \<and> (\<forall>x\<in>set e. \<not> isLineTerminator x)"
    by (auto simp: list_all_iff)
next
  assume "\<exists>e. s = CHR ''('' # e @ [CHR '')''] \<and> (\<forall>x\<in>set e. \<not> isLineTerminator x)"
  then show "paren_at s" by (auto simp: paren_at_def list_all_iff)
qed

lemma mm_nodes_at_id:
  assumes "parseMarkdown1 s = Inr t" "n \<in> set (mm_nodes_at d t)"
  shows "\<exists>idx. node_id n = node_id_of d idx"
proof -
  from parseMarkdown1_conv [OF assms(1)] obtain c where
    "convertToMindMap (length (fst (run1 (lines1 s)))) (fst (run1 (lines1 s))) c 0 0 = Some t"
    by blast
  from mm_nodes_at_conv [OF this assms(2)] obtain f' r' idx' where
    "convertToMindMap f' (fst (run1 (lines1 s))) r' (0 + d) idx' = Some n"
    by blast
  from convertToMindMap_shape [OF this] show ?thesis by auto
qed

text \<open>
  C5, as amended. In the first scheme the ids of the direct children of any node are
  pairwise different, and two nodes with the same id are at the same depth (the id is
  made of the depth and the sibling index only, so it repeats under different parents).
  In the second scheme the id of every node is the slug of its label: ids are pairwise
  different exactly when the slugs of the labels are.
\<close>

theorem C5_ids:
  "(parseMarkdown1 s = Inr t \<longrightarrow>
      (\<forall>n\<in>set (mm_nodes t). distinct (map node_id (node_children n))) \<and>
      (\<forall>d d'. \<forall>n\<in>set (mm_nodes_at d t). \<forall>n'\<in>set (mm_nodes_at d' t).
         node_id n = node_id n' \<longrightarrow> d = d')) \<and>
   (parseMarkdown2 s = Some u \<longrightarrow> (\<forall>n\<in>set (nd_nodes u). nd_id n = slug (nd_label n)))"
proof (intro conjI impI ballI allI)
  fix n
  assume p: "parseMarkdown1 s = Inr t" and n: "n \<in> set (mm_nodes t)"
  from parseMarkdown1_conv [OF p] obtain c where
    c: "convertToMindMap (length (fst (run1 (lines1 s)))) (fst (run1 (lines1 s))) c 0 0 = Some t"
    by blast
  from mm_nodes_depth [OF n] obtain d where "n \<in> set (mm_nodes_at d t)" by blast
  from mm_nodes_at_conv [OF c this] obtain f' r' idx' where
    "convertToMindMap f' (fst (run1 (lines1 s))) r' (0 + d) idx' = Some n"
    by blast
  from mm_children_id [OF this] show "distinct (map node_id (node_children n))"
    by (simp only: distinct_node_ids)
next
  fix d d' n n'
  assume p: "parseMarkdown1 s = Inr t" and n: "n \<in> set (mm_nodes_at d t)"
    and n': "n' \<in> set (mm_nodes_at d' t)" and e: "node_id n = node_id n'"
  from mm_nodes_at_id [OF p n] obtain i where i: "node_id n = node_id_of d i" by blast
  from mm_nodes_at_id [OF p n'] obtain i' where i': "node_id n' = node_id_of d' i'" by blast
  from e i i' have "node_id_of d i = node_id_of d' i'" by simp
  from node_id_of_inj [OF this] show "d = d'" by simp
next
  fix n
  assume p: "parseMarkdown2 s = Some u" and n: "n \<in> set (nd_nodes u)"
  from p show "nd_id n = slug (nd_label n)"
  proof (cases rule: parseMarkdown2_cases)
    case 1
    have "slug ''NYC'' = ''nyc''" by code_simp
    with 1 n show ?thesis by (simp add: fallback_def)
  next
    case (2 r)
    from nd_nodes_cell [OF 2(2) n] obtain f' r' where r': "r' < length (heap (run2 (lines2 s)))"
      and rd: "read_node f' (heap (run2 (lines2 s))) r' = Some n"
      by blast
    from cells_fromD [OF cells_from_run2 r'] obtain line where
      "cell_of_line line (heap (run2 (lines2 s)) ! r')"
      by blast
    then have "cell_id (heap (run2 (lines2 s)) ! r') = slug (cell_label (heap (run2 (lines2 s)) ! r'))"
      by (simp add: cell_of_line_def)
    with read_node_shape [OF rd] show ?thesis by auto
  qed
qed

theorem C5_ids_witness:
  "distinct (map node_id [MindMapNode ''node-1-0'' ''B'' 200 0 [],
                          MindMapNode ''node-1-1'' ''C'' 200 100 []]) \<and>
   nd_id (NodeDataType ''b-c'' ''B  c'' ''#212529'' None 500 (Num 80) []) = slug ''B  c''"
proof -
  let ?S = "''# A'' @ [CHR 0x0A] @ ''## B'' @ [CHR 0x0A] @ ''## C''"
  let ?cs1 = "[MindMapNode ''node-1-0'' ''B'' 200 0 [], MindMapNode ''node-1-1'' ''C'' 200 100 []]"
  let ?T = "MindMapNode ''node-0-0'' ''A'' 0 0 ?cs1"
  let ?S2 = "''# A'' @ [CHR 0x0A] @ ''## B  c''"
  let ?B = "NodeDataType ''b-c'' ''B  c'' ''#212529'' None 500 (Num 80) []"
  let ?U = "NodeDataType ''a'' ''A'' ''#212529'' None 250 (Num 160) [?B]"
  have p1: "parseMarkdown1 ?S = Inr ?T" by code_simp
  have p2: "parseMarkdown2 ?S2 = Some ?U" by code_simp
  have m1: "?T \<in> set (mm_nodes ?T)" by simp
  have m2: "?B \<in> set (nd_nodes ?U)" by simp
  from C5_ids [of ?S ?T u] p1 m1
  have a: "distinct (map node_id (node_children ?T))" by blast
  from C5_ids [of ?S2 t ?U] p2 m2
  have b: "nd_id ?B = slug (nd_label ?B)" by blast
  from a b show ?thesis by (simp only: MindMapNode.sel NodeDataType.sel)
qed

text \<open>
  The claim as stated fails in both schemes: in the first, the first children of two
  different parents both get the id \<^verbatim>\<open>node-2-0\<close>; in the second, two nodes with the
  same label get the same id.
\<close>

theorem C5_counterexample:
  "parseMarkdown1 (''# A'' @ [CHR 0x0A] @ ''## B'' @ [CHR 0x0A] @ ''### C'' @ [CHR 0x0A] @
                   ''## D'' @ [CHR 0x0A] @ ''### E'') =
     Inr (MindMapNode ''node-0-0'' ''A'' 0 0
           [MindMapNode ''node-1-0'' ''B'' 200 0 [MindMapNode ''node-2-0'' ''C'' 400 0 []],
            MindMapNode ''node-1-1'' ''D'' 200 100 [MindMapNode ''node-2-0'' ''E'' 400 0 []]]) \<and>
   \<not> distinct (map node_id (mm_nodes
      (MindMapNode ''node-0-0'' ''A'' 0 0
           [MindMapNode ''node-1-0'' ''B'' 200 0 [MindMapNode ''node-2-0'' ''C'' 400 0 []],
            MindMapNode ''node-1-1'' ''D'' 200 100 [MindMapNode ''node-2-0'' ''E'' 400 0 []]]))) \<and>
   parseMarkdown2 (''# A'' @ [CHR 0x0A] @ ''## A'') =
     Some (NodeDataType ''a'' ''A'' ''#212529'' None 250 (Num 160)
            [NodeDataType ''a'' ''A'' ''#212529'' None 500 (Num 80) []]) \<and>
   \<not> distinct (map nd_id (nd_nodes
      (NodeDataType ''a'' ''A'' ''#212529'' None 250 (Num 160)
            [NodeDataType ''a'' ''A'' ''#212529'' None 500 (Num 80) []])))"
  by code_simp

section \<open>The second scheme: which cells the returned tree holds\<close>

text \<open>
  The nodes of the tree read from a reference are, in order, the cells that
  \<open>subtree_refs\<close> lists.
\<close>

definition cell_fields :: "NodeCell \<Rightarrow> string \<times> string \<times> string \<times> string option \<times> int \<times> number" where
  "cell_fields c = (cell_id c, cell_label c, cell_color c, cell_edgeLabel c, cell_x c, cell_y c)"

definition nd_fields :: "NodeDataType \<Rightarrow> string \<times> string \<times> string \<times> string option \<times> int \<times> number" where
  "nd_fields t = (nd_id t, nd_label t, nd_color t, nd_edgeLabel t, nd_x t, nd_y t)"

lemma read_node_refs:
  "read_node f h r = Some t \<Longrightarrow>
   map nd_fields (nd_nodes t) = map (\<lambda>i. cell_fields (h ! i)) (subtree_refs f (graph2 h) r)"
proof (induction f arbitrary: r t)
  case 0
  then show ?case by simp
next
  case (Suc f)
  from read_node_shape [OF Suc.prems] have r: "r < length h"
    and fs: "nd_fields t = cell_fields (h ! r)"
    and len: "length (nd_children t) = length (cell_children (h ! r))"
    and rd: "\<forall>i<length (cell_children (h ! r)).
               read_node f h (cell_children (h ! r) ! i) = Some (nd_children t ! i)"
    by (auto simp: nd_fields_def cell_fields_def)
  have "map (\<lambda>c. map nd_fields (nd_nodes c)) (nd_children t) =
        map (\<lambda>c. map (\<lambda>i. cell_fields (h ! i)) (subtree_refs f (graph2 h) c)) (cell_children (h ! r))"
  proof (rule nth_equalityI)
    show "length (map (\<lambda>c. map nd_fields (nd_nodes c)) (nd_children t)) =
          length (map (\<lambda>c. map (\<lambda>i. cell_fields (h ! i)) (subtree_refs f (graph2 h) c)) (cell_children (h ! r)))"
      using len by simp
  next
    fix i assume "i < length (map (\<lambda>c. map nd_fields (nd_nodes c)) (nd_children t))"
    then have i: "i < length (cell_children (h ! r))" using len by simp
    with rd have "read_node f h (cell_children (h ! r) ! i) = Some (nd_children t ! i)" by simp
    from Suc.IH [OF this] show "map (\<lambda>c. map nd_fields (nd_nodes c)) (nd_children t) ! i =
        map (\<lambda>c. map (\<lambda>i. cell_fields (h ! i)) (subtree_refs f (graph2 h) c)) (cell_children (h ! r)) ! i"
      using i len by simp
  qed
  then have "map nd_fields (concat (map nd_nodes (nd_children t))) =
      map (\<lambda>i. cell_fields (h ! i)) (concat (map (subtree_refs f (graph2 h)) (cell_children (h ! r))))"
    by (simp add: map_concat comp_def)
  moreover have "graph2 h ! r = cell_children (h ! r)" using r by (simp add: graph2_def)
  ultimately show ?case using fs by (subst nd_nodes_unfold) simp
qed

lemma subtree_refs_members:
  "x \<in> set (subtree_refs f g r) \<Longrightarrow> x = r \<or> (\<exists>p\<in>set (subtree_refs f g r). x \<in> set (g ! p))"
proof (induction f arbitrary: r)
  case 0
  then show ?case by simp
next
  case (Suc f)
  show ?case
  proof (cases "x = r")
    case True
    then show ?thesis by simp
  next
    case False
    with Suc.prems obtain c where c: "c \<in> set (g ! r)" and x: "x \<in> set (subtree_refs f g c)"
      by auto
    from Suc.IH [OF x] show ?thesis
    proof
      assume "x = c"
      with c have "r \<in> set (subtree_refs (Suc f) g r) \<and> x \<in> set (g ! r)" by simp
      then show ?thesis by blast
    next
      assume "\<exists>p\<in>set (subtree_refs f g c). x \<in> set (g ! p)"
      then obtain p where "p \<in> set (subtree_refs f g c)" "x \<in> set (g ! p)" by blast
      with c have "p \<in> set (subtree_refs (Suc f) g r) \<and> x \<in> set (g ! p)" by auto
      then show ?thesis by blast
    qed
  qed
qed

lemma subtree_refs_range:
  "wf_graph g \<Longrightarrow> r < length g \<Longrightarrow> x \<in> set (subtree_refs f g r) \<Longrightarrow> x < length g"
proof (induction f arbitrary: r)
  case 0
  then show ?case by simp
next
  case (Suc f)
  show ?case
  proof (cases "x = r")
    case True
    with Suc.prems(2) show ?thesis by simp
  next
    case False
    with Suc.prems(3) obtain c where c: "c \<in> set (g ! r)" and x: "x \<in> set (subtree_refs f g c)"
      by auto
    from wf_graphD [OF Suc.prems(1,2) c] have "c < length g" by simp
    from Suc.IH [OF Suc.prems(1) this x] show ?thesis .
  qed
qed

text \<open>The second pass alone, for any table of child counts.\<close>

definition second_pass :: "(string \<rightharpoonup> nat) \<Rightarrow> string list \<Rightarrow> state2" where
  "second_pass cc ls = foldl (step2 cc) init2 ls"

lemma run2_second_pass: "run2 ls = second_pass (foldl count_step Map.empty ls) ls"
  by (simp add: run2_def second_pass_def)

lemma second_pass_append: "second_pass cc (xs @ ys) = foldl (step2 cc) (second_pass cc xs) ys"
  by (simp add: second_pass_def)

lemma base2_second_pass: "base2 (second_pass cc ls)"
  unfolding second_pass_def by (rule base2_foldl [OF base2_init])

lemma xinv_second_pass: "xinv (second_pass cc ls)"
  unfolding second_pass_def by (rule xinv_foldl [OF base2_init xinv_init])

text \<open>A reference is somebody's child.\<close>

definition in_children :: "NodeCell list \<Rightarrow> nat \<Rightarrow> bool" where
  "in_children h c \<longleftrightarrow> (\<exists>i<length h. c \<in> set (cell_children (h ! i)))"

lemma in_children_step:
  assumes b: "base2 st" and pos: "0 < heading_level line"
  shows "in_children (heap (step2 cc st line)) c \<longleftrightarrow>
         in_children (heap st) c \<or> (c = length (heap st) \<and> parent_of st line \<noteq> None)"
proof
  assume "in_children (heap (step2 cc st line)) c"
  then obtain i where i: "i < length (heap (step2 cc st line))"
    and c: "c \<in> set (cell_children (heap (step2 cc st line) ! i))"
    unfolding in_children_def by blast
  show "in_children (heap st) c \<or> (c = length (heap st) \<and> parent_of st line \<noteq> None)"
  proof (cases "i < length (heap st)")
    case True
    from c have "c \<in> set (cell_children (heap st ! i)) \<or> (c = length (heap st) \<and> parent_of st line = Some i)"
      by (auto simp: step2_old_cell(7) [OF b pos True] split: if_splits)
    with True show ?thesis unfolding in_children_def by auto
  next
    case False
    with i have "i = length (heap st)" by (simp add: length_step2 [OF pos])
    with c step2_nth_new [OF b pos, of cc] show ?thesis by (simp add: new_cell_def)
  qed
next
  assume a: "in_children (heap st) c \<or> (c = length (heap st) \<and> parent_of st line \<noteq> None)"
  show "in_children (heap (step2 cc st line)) c"
  proof (cases "in_children (heap st) c")
    case True
    then obtain i where i: "i < length (heap st)" and c: "c \<in> set (cell_children (heap st ! i))"
      unfolding in_children_def by blast
    from c have "c \<in> set (cell_children (heap (step2 cc st line) ! i))"
      by (simp add: step2_old_cell(7) [OF b pos i])
    moreover from i have "i < length (heap (step2 cc st line))" by (simp add: length_step2 [OF pos])
    ultimately show ?thesis unfolding in_children_def by blast
  next
    case False
    with a obtain p where c: "c = length (heap st)" and p: "parent_of st line = Some p" by auto
    from parent_of_bound [OF b p] have pl: "p < length (heap st)" .
    then have "c \<in> set (cell_children (heap (step2 cc st line) ! p))"
      by (simp add: step2_old_cell(7) [OF b pos pl] p c)
    moreover from pl have "p < length (heap (step2 cc st line))" by (simp add: length_step2 [OF pos])
    ultimately show ?thesis unfolding in_children_def by blast
  qed
qed

lemma not_in_children_foldl:
  "base2 st \<Longrightarrow> c < length (heap st) \<Longrightarrow> \<not> in_children (heap st) c \<Longrightarrow>
   \<not> in_children (heap (foldl (step2 cc) st ls)) c"
proof (induction ls arbitrary: st)
  case Nil
  then show ?case by simp
next
  case (Cons l ls)
  show ?case
  proof (cases "heading_level l = 0")
    case True
    then show ?thesis using Cons by (simp add: step2_skip)
  next
    case False
    then have pos: "0 < heading_level l" by simp
    have "\<not> in_children (heap (step2 cc st l)) c"
      using Cons.prems by (simp add: in_children_step [OF Cons.prems(1) pos])
    moreover have "c < length (heap (step2 cc st l))"
      using Cons.prems(2) by (simp add: length_step2 [OF pos])
    ultimately show ?thesis using Cons.IH [OF base2_step [OF Cons.prems(1)]] by simp
  qed
qed

lemma length_heap_foldl: "length (heap st) \<le> length (heap (foldl (step2 cc) st ls))"
proof (induction ls arbitrary: st)
  case Nil
  then show ?case by simp
next
  case (Cons l ls)
  have "length (heap st) \<le> length (heap (step2 cc st l))"
    by (cases "heading_level l = 0") (simp_all add: step2_skip length_step2)
  with Cons [of "step2 cc st l"] show ?case by simp
qed

lemma old_cell_foldl:
  "base2 st \<Longrightarrow> i < length (heap st) \<Longrightarrow>
   cell_fields (heap (foldl (step2 cc) st ls) ! i) = cell_fields (heap st ! i) \<and>
   set (cell_children (heap st ! i)) \<subseteq> set (cell_children (heap (foldl (step2 cc) st ls) ! i))"
proof (induction ls arbitrary: st)
  case Nil
  then show ?case by simp
next
  case (Cons l ls)
  show ?case
  proof (cases "heading_level l = 0")
    case True
    then show ?thesis using Cons by (simp add: step2_skip)
  next
    case False
    then have pos: "0 < heading_level l" by simp
    note old = step2_old_cell [OF Cons.prems(1) pos Cons.prems(2)]
    have i': "i < length (heap (step2 cc st l))"
      using Cons.prems(2) by (simp add: length_step2 [OF pos])
    from Cons.IH [OF base2_step [OF Cons.prems(1)] i']
    show ?thesis using old by (auto simp: cell_fields_def split: if_splits)
  qed
qed

lemma in_children_bound: "base2 st \<Longrightarrow> in_children (heap st) c \<Longrightarrow> c < length (heap st)"
  unfolding in_children_def using child_bound by blast

definition uniq_parent :: "NodeCell list \<Rightarrow> bool" where
  "uniq_parent h \<longleftrightarrow>
     (\<forall>i j c. i < length h \<and> j < length h \<and> c \<in> set (cell_children (h ! i)) \<and>
              c \<in> set (cell_children (h ! j)) \<longrightarrow> i = j)"

lemma uniq_parentD:
  "uniq_parent h \<Longrightarrow> i < length h \<Longrightarrow> j < length h \<Longrightarrow> c \<in> set (cell_children (h ! i)) \<Longrightarrow>
   c \<in> set (cell_children (h ! j)) \<Longrightarrow> i = j"
  unfolding uniq_parent_def by blast

lemma uniq_parent_step:
  assumes b: "base2 st" and u: "uniq_parent (heap st)"
  shows "uniq_parent (heap (step2 cc st line))"
proof (cases "heading_level line = 0")
  case True
  then show ?thesis using u by (simp add: step2_skip)
next
  case False
  then have pos: "0 < heading_level line" by simp
  let ?h = "heap st"
  let ?h' = "heap (step2 cc st line)"
  have where_new: "c \<in> set (cell_children (?h ! i)) \<or> (c = length ?h \<and> parent_of st line = Some i)"
    if "i < length ?h'" "c \<in> set (cell_children (?h' ! i))" for i c
  proof (cases "i < length ?h")
    case True
    with that(2) show ?thesis
      by (auto simp: step2_old_cell(7) [OF b pos True] split: if_splits)
  next
    case False
    with that(1) have "i = length ?h" by (simp add: length_step2 [OF pos])
    with that(2) step2_nth_new [OF b pos, of cc] show ?thesis by (simp add: new_cell_def)
  qed
  have "i = j" if i: "i < length ?h'" and j: "j < length ?h'"
    and ci: "c \<in> set (cell_children (?h' ! i))" and cj: "c \<in> set (cell_children (?h' ! j))" for i j c
  proof (cases "c = length ?h")
    case True
    have "parent_of st line = Some k" if "k < length ?h'" "c \<in> set (cell_children (?h' ! k))" for k
    proof -
      from where_new [OF that] show ?thesis
      proof
        assume a: "c \<in> set (cell_children (?h ! k))"
        have "k < length ?h"
        proof (rule ccontr)
          assume "\<not> k < length ?h"
          with that(1) have "k = length ?h" by (simp add: length_step2 [OF pos])
          with that(2) step2_nth_new [OF b pos, of cc] show False by (simp add: new_cell_def)
        qed
        from child_bound [OF b this a] True show ?thesis by simp
      next
        assume "c = length ?h \<and> parent_of st line = Some k"
        then show ?thesis by simp
      qed
    qed
    from this [OF i ci] this [OF j cj] show ?thesis by simp
  next
    case False
    have "k < length ?h \<and> c \<in> set (cell_children (?h ! k))"
      if "k < length ?h'" "c \<in> set (cell_children (?h' ! k))" for k
    proof -
      have "k < length ?h"
      proof (rule ccontr)
        assume "\<not> k < length ?h"
        with that(1) have "k = length ?h" by (simp add: length_step2 [OF pos])
        with that(2) step2_nth_new [OF b pos, of cc] show False by (simp add: new_cell_def)
      qed
      with where_new [OF that] False show ?thesis by simp
    qed
    from this [OF i ci] this [OF j cj] uniq_parentD [OF u] show ?thesis by blast
  qed
  then show ?thesis unfolding uniq_parent_def by blast
qed

lemma uniq_parent_foldl:
  "base2 st \<Longrightarrow> uniq_parent (heap st) \<Longrightarrow> uniq_parent (heap (foldl (step2 cc) st ls))"
  by (induction ls arbitrary: st) (simp_all add: uniq_parent_step base2_step)

lemma uniq_parent_second_pass: "uniq_parent (heap (second_pass cc ls))"
  unfolding second_pass_def
  by (rule uniq_parent_foldl [OF base2_init]) (simp add: uniq_parent_def init2_def)

lemma last_foldl_other:
  "\<forall>x\<in>set ls. heading_level x \<noteq> L \<Longrightarrow>
   lastNodeAtLevel (foldl (step2 cc) st ls) L = lastNodeAtLevel st L"
proof (induction ls arbitrary: st)
  case Nil
  then show ?case by simp
next
  case (Cons l ls)
  have "lastNodeAtLevel (step2 cc st l) L = lastNodeAtLevel st L"
  proof (cases "heading_level l = 0")
    case True
    then show ?thesis by (simp add: step2_skip)
  next
    case False
    then show ?thesis using Cons.prems by (simp add: step2_last)
  qed
  with Cons show ?case by simp
qed

lemma orphan_facts:
  fixes post :: "string list"
  assumes L: "1 < heading_level l"
    and none: "lastNodeAtLevel (second_pass cc pre) (heading_level l - 1) = None"
    and mid: "\<forall>x\<in>set mid. heading_level x \<noteq> heading_level l"
    and l': "heading_level l' = Suc (heading_level l)"
  defines "n \<equiv> length (heap (second_pass cc pre))"
    and "n' \<equiv> length (heap (second_pass cc (pre @ l # mid)))"
    and "final \<equiv> second_pass cc (pre @ l # mid @ l' # post)"
  shows "cell_label (heap final ! n) = pl_label (parseLine l)"
    and "cell_label (heap final ! n') = pl_label (parseLine l')"
    and "\<not> in_children (heap final) n"
    and "lastNodeAtLevel (second_pass cc (pre @ [l])) (heading_level l) = Some n"
    and "n' \<in> set (cell_children (heap final ! n))"
    and "root final = Some r \<Longrightarrow> n \<notin> set (refs (graph2 (heap final)) r)"
    and "root final = Some r \<Longrightarrow> n' \<notin> set (refs (graph2 (heap final)) r)"
proof -
  let ?st0 = "second_pass cc pre"
  let ?st1 = "step2 cc ?st0 l"
  let ?st2 = "foldl (step2 cc) ?st1 mid"
  let ?st3 = "step2 cc ?st2 l'"
  have b0: "base2 ?st0" by (rule base2_second_pass)
  have b1: "base2 ?st1" by (rule base2_step [OF b0])
  have b2: "base2 ?st2" by (rule base2_foldl [OF b1])
  have b3: "base2 ?st3" by (rule base2_step [OF b2])
  have pos: "0 < heading_level l" using L by simp
  have pos': "0 < heading_level l'" using l' by simp
  have st1: "second_pass cc (pre @ [l]) = ?st1" by (simp add: second_pass_def)
  have st2: "second_pass cc (pre @ l # mid) = ?st2" by (simp add: second_pass_def)
  have fin3: "final = foldl (step2 cc) ?st3 post" by (simp add: final_def second_pass_def)
  have fin1: "final = foldl (step2 cc) ?st1 (mid @ l' # post)"
    by (simp add: final_def second_pass_def)
  have bf: "base2 final" unfolding final_def by (rule base2_second_pass)
  have xf: "xinv final" unfolding final_def by (rule xinv_second_pass)
  have uf: "uniq_parent (heap final)" unfolding final_def by (rule uniq_parent_second_pass)
  have n1: "n < length (heap ?st1)" by (simp add: n_def length_step2 [OF pos])
  have par: "parent_of ?st0 l = None" using L none by (simp add: parent_of_def)
  have new1: "heap ?st1 ! n = new_cell cc ?st0 l"
    unfolding n_def by (rule step2_nth_new [OF b0 pos])
  have f1: "cell_fields (heap final ! n) = cell_fields (heap ?st1 ! n)"
    unfolding fin1 using old_cell_foldl [OF b1 n1, of cc "mid @ l' # post"] by blast
  show lab: "cell_label (heap final ! n) = pl_label (parseLine l)"
    using f1 new1 by (simp add: cell_fields_def new_cell_def)
  have x1: "cell_x (heap final ! n) = int (heading_level l) * xSpacing"
    using f1 new1 by (simp add: cell_fields_def new_cell_def)
  have "\<not> in_children (heap ?st0) n"
    using in_children_bound [OF b0, of n] by (auto simp: n_def)
  then have "\<not> in_children (heap ?st1) n"
    using par by (simp add: in_children_step [OF b0 pos])
  then show orphan: "\<not> in_children (heap final) n"
    unfolding fin1 by (rule not_in_children_foldl [OF b1 n1])
  have last1: "lastNodeAtLevel ?st1 (heading_level l) = Some n"
    by (simp add: step2_last [OF pos] n_def)
  then show "lastNodeAtLevel (second_pass cc (pre @ [l])) (heading_level l) = Some n"
    by (simp add: st1)
  have last2: "lastNodeAtLevel ?st2 (heading_level l) = Some n"
    using last_foldl_other [OF mid, of cc ?st1] last1 by simp
  have n'_def2: "n' = length (heap ?st2)" by (simp add: n'_def st2)
  have n2: "n < length (heap ?st2)"
    using n1 length_heap_foldl [of ?st1 cc mid] by simp
  have par': "parent_of ?st2 l' = Some n"
    using last2 l' L by (simp add: parent_of_def)
  have "n' \<in> set (cell_children (heap ?st3 ! n))"
    by (simp add: step2_old_cell(7) [OF b2 pos' n2] par' n'_def2)
  moreover have n3: "n < length (heap ?st3)" using n2 by (simp add: length_step2 [OF pos'])
  ultimately show child: "n' \<in> set (cell_children (heap final ! n))"
    unfolding fin3 using old_cell_foldl [OF b3 n3, of cc post] by blast
  have n'3: "n' < length (heap ?st3)" by (simp add: n'_def2 length_step2 [OF pos'])
  have new3: "heap ?st3 ! n' = new_cell cc ?st2 l'"
    unfolding n'_def2 by (rule step2_nth_new [OF b2 pos'])
  have f3: "cell_fields (heap final ! n') = cell_fields (heap ?st3 ! n')"
    unfolding fin3 using old_cell_foldl [OF b3 n'3, of cc post] by blast
  show "cell_label (heap final ! n') = pl_label (parseLine l')"
    using f3 new3 by (simp add: cell_fields_def new_cell_def)
  have x3: "cell_x (heap final ! n') = int (heading_level l') * xSpacing"
    using f3 new3 by (simp add: cell_fields_def new_cell_def)
  have nf: "n < length (heap final)"
    unfolding fin3 using n3 length_heap_foldl [of ?st3 cc post] by simp
  have wf: "wf_graph (graph2 (heap final))" using bf by (simp add: base2_def)
  have lg: "length (graph2 (heap final)) = length (heap final)" by (simp add: graph2_def)
  have gn: "graph2 (heap final) ! p = cell_children (heap final ! p)" if "p < length (heap final)" for p
    using that by (simp add: graph2_def)
  {
    assume r: "root final = Some r"
    from bf r have rl: "r < length (heap final)" by (auto simp: base2_def)
    from xinv_root [OF xf r] have xr: "cell_x (heap final ! r) = xSpacing" by simp
    show absent: "n \<notin> set (refs (graph2 (heap final)) r)"
    proof
      assume a: "n \<in> set (refs (graph2 (heap final)) r)"
      from subtree_refs_members [OF a [unfolded refs_def]] show False
      proof
        assume "n = r"
        with xr x1 L show False by (simp add: xSpacing_def)
      next
        assume "\<exists>p\<in>set (subtree_refs (length (graph2 (heap final))) (graph2 (heap final)) r).
                  n \<in> set (graph2 (heap final) ! p)"
        then obtain p where p: "p \<in> set (subtree_refs (length (graph2 (heap final))) (graph2 (heap final)) r)"
          and np: "n \<in> set (graph2 (heap final) ! p)"
          by blast
        from subtree_refs_range [OF wf _ p] rl lg have pl: "p < length (heap final)" by simp
        with np have "in_children (heap final) n" unfolding in_children_def by (auto simp: gn)
        with orphan show False by contradiction
      qed
    qed
    show "n' \<notin> set (refs (graph2 (heap final)) r)"
    proof
      assume a: "n' \<in> set (refs (graph2 (heap final)) r)"
      from subtree_refs_members [OF a [unfolded refs_def]] show False
      proof
        assume "n' = r"
        with xr x3 l' L show False by (simp add: xSpacing_def)
      next
        assume "\<exists>p\<in>set (subtree_refs (length (graph2 (heap final))) (graph2 (heap final)) r).
                  n' \<in> set (graph2 (heap final) ! p)"
        then obtain p where p: "p \<in> set (subtree_refs (length (graph2 (heap final))) (graph2 (heap final)) r)"
          and np: "n' \<in> set (graph2 (heap final) ! p)"
          by blast
        from subtree_refs_range [OF wf _ p] rl lg have pl: "p < length (heap final)" by simp
        with np have "n' \<in> set (cell_children (heap final ! p))" by (simp add: gn)
        from uniq_parentD [OF uf pl nf this child] have "p = n" .
        with p have "n \<in> set (refs (graph2 (heap final)) r)" by (simp add: refs_def)
        with absent show False by contradiction
      qed
    qed
  }
qed

lemma result2_refs:
  assumes "root st = Some r" "result2 st = Some u"
  shows "map nd_fields (nd_nodes u) = map (\<lambda>i. cell_fields (heap st ! i)) (refs (graph2 (heap st)) r)"
proof -
  from assms have "read_node (length (heap st)) (heap st) r = Some u" by (simp add: result2_def)
  from read_node_refs [OF this] show ?thesis by (simp add: refs_def graph2_def)
qed

text \<open>
  C10: in the second pass of the second scheme, take a heading line \<open>l\<close> of level
  \<open>L > 1\<close> that is processed while no node is recorded at level \<open>L - 1\<close>. Its cell
  \<open>n\<close> is pushed onto no children list, then or later, and is none of the cells of the
  returned tree (the cells below the root, whose fields are the nodes of the returned
  tree), yet it is recorded as the last node at level \<open>L\<close>. A later line \<open>l'\<close> of
  level \<open>L + 1\<close>, processed while \<open>n\<close> is still the last node at level \<open>L\<close>, gets
  its cell \<open>n'\<close> pushed onto the children of \<open>n\<close>, and is not in the returned tree
  either. The table of child counts \<open>cc\<close> of the first pass plays no part; \<open>run2\<close> is
  \<open>second_pass\<close> with that table.
\<close>

theorem C10_orphan:
  assumes "1 < heading_level l"
    and "lastNodeAtLevel (second_pass cc pre) (heading_level l - 1) = None"
    and "\<forall>x\<in>set mid. heading_level x \<noteq> heading_level l"
    and "heading_level l' = Suc (heading_level l)"
  shows "let n = length (heap (second_pass cc pre));
             n' = length (heap (second_pass cc (pre @ l # mid)));
             final = second_pass cc (pre @ l # mid @ l' # post)
         in cell_label (heap final ! n) = pl_label (parseLine l) \<and>
            cell_label (heap final ! n') = pl_label (parseLine l') \<and>
            (\<forall>i<length (heap final). n \<notin> set (cell_children (heap final ! i))) \<and>
            lastNodeAtLevel (second_pass cc (pre @ [l])) (heading_level l) = Some n \<and>
            n' \<in> set (cell_children (heap final ! n)) \<and>
            (\<forall>r u. root final = Some r \<and> result2 final = Some u \<longrightarrow>
               map nd_fields (nd_nodes u) =
                 map (\<lambda>i. cell_fields (heap final ! i)) (refs (graph2 (heap final)) r) \<and>
               n \<notin> set (refs (graph2 (heap final)) r) \<and>
               n' \<notin> set (refs (graph2 (heap final)) r))"
  using orphan_facts(1-3,5-7) [OF assms, where post = post] orphan_facts(4) [OF assms] result2_refs
  unfolding Let_def in_children_def by blast

theorem C10_orphan_witness:
  "lines2 (''# A'' @ [CHR 0x0A] @ ''### D'' @ [CHR 0x0A] @ ''#### E'') =
     [''# A'', ''### D'', ''#### E''] \<and>
   lastNodeAtLevel (second_pass Map.empty [''# A'']) 2 = None \<and>
   lastNodeAtLevel (second_pass Map.empty [''# A'', ''### D'']) 3 = Some 1 \<and>
   cell_label (heap (second_pass Map.empty [''# A'', ''### D'', ''#### E'']) ! 1) = ''D'' \<and>
   cell_label (heap (second_pass Map.empty [''# A'', ''### D'', ''#### E'']) ! 2) = ''E'' \<and>
   2 \<in> set (cell_children (heap (second_pass Map.empty [''# A'', ''### D'', ''#### E'']) ! 1)) \<and>
   root (second_pass Map.empty [''# A'', ''### D'', ''#### E'']) = Some 0 \<and>
   1 \<notin> set (refs (graph2 (heap (second_pass Map.empty [''# A'', ''### D'', ''#### E'']))) 0) \<and>
   2 \<notin> set (refs (graph2 (heap (second_pass Map.empty [''# A'', ''### D'', ''#### E'']))) 0) \<and>
   parseMarkdown2 (''# A'' @ [CHR 0x0A] @ ''### D'' @ [CHR 0x0A] @ ''#### E'') =
     Some (NodeDataType ''a'' ''A'' ''#212529'' None 250 (Num 160) [])"
proof -
  let ?S = "''# A'' @ [CHR 0x0A] @ ''### D'' @ [CHR 0x0A] @ ''#### E''"
  let ?F = "second_pass Map.empty [''# A'', ''### D'', ''#### E'']"
  let ?U = "NodeDataType ''a'' ''A'' ''#212529'' None 250 (Num 160) []"
  have a: "1 < heading_level ''### D''" by code_simp
  have b: "lastNodeAtLevel (second_pass Map.empty [''# A'']) (heading_level ''### D'' - 1) = None"
    by code_simp
  have c: "\<forall>x\<in>set []. heading_level x \<noteq> heading_level ''### D''" by simp
  have d: "heading_level ''#### E'' = Suc (heading_level ''### D'')" by code_simp
  have n: "length (heap (second_pass Map.empty [''# A''])) = 1" by code_simp
  have n': "length (heap (second_pass Map.empty [''# A'', ''### D''])) = 2" by code_simp
  have f: "[''# A''] @ ''### D'' # [] @ ''#### E'' # [] = [''# A'', ''### D'', ''#### E'']"
    "[''# A''] @ [''### D''] = [''# A'', ''### D'']"
    "[''# A''] @ ''### D'' # [] = [''# A'', ''### D'']"
    by simp_all
  have lv: "heading_level ''### D'' = 3" by code_simp
  have l: "lines2 ?S = [''# A'', ''### D'', ''#### E'']" by code_simp
  have b': "lastNodeAtLevel (second_pass Map.empty [''# A'']) 2 = None" by code_simp
  have r: "root ?F = Some 0" by code_simp
  have u: "result2 ?F = Some ?U" by code_simp
  have p: "parseMarkdown2 ?S = Some ?U" by code_simp
  have e: "cell_label (heap ?F ! 1) = ''D''" "cell_label (heap ?F ! 2) = ''E''" by code_simp+
  note t = C10_orphan [OF a b c d, where post = "[]", unfolded Let_def f n n' lv]
  from t have 1: "lastNodeAtLevel (second_pass Map.empty [''# A'', ''### D'']) 3 = Some 1"
    by blast
  from t have 2: "2 \<in> set (cell_children (heap ?F ! 1))" by blast
  from t r u have 3: "1 \<notin> set (refs (graph2 (heap ?F)) 0)" by blast
  from t r u have 4: "2 \<notin> set (refs (graph2 (heap ?F)) 0)" by blast
  from l b' 1 e 2 r 3 4 p show ?thesis by (intro conjI)
qed

section \<open>The first scheme: which entries the returned tree holds\<close>

lemma mm_nodes_unfold: "mm_nodes t = t # concat (map mm_nodes (node_children t))"
  by (cases t) simp

lemma convertToMindMap_refs:
  "convertToMindMap f h r lv idx = Some t \<Longrightarrow>
   map node_label (mm_nodes t) = map (\<lambda>i. content (h ! i)) (subtree_refs f (graph1 h) r)"
proof (induction f arbitrary: r lv idx t)
  case 0
  then show ?case by simp
next
  case (Suc f)
  from convertToMindMap_shape [OF Suc.prems] have r: "r < length h"
    and lab: "node_label t = content (h ! r)"
    and len: "length (node_children t) = length (children (h ! r))"
    and rd: "\<forall>i<length (children (h ! r)).
               convertToMindMap f h (children (h ! r) ! i) (lv + 1) i = Some (node_children t ! i)"
    by auto
  have "map (\<lambda>c. map node_label (mm_nodes c)) (node_children t) =
        map (\<lambda>c. map (\<lambda>i. content (h ! i)) (subtree_refs f (graph1 h) c)) (children (h ! r))"
  proof (rule nth_equalityI)
    show "length (map (\<lambda>c. map node_label (mm_nodes c)) (node_children t)) =
          length (map (\<lambda>c. map (\<lambda>i. content (h ! i)) (subtree_refs f (graph1 h) c)) (children (h ! r)))"
      using len by simp
  next
    fix i assume "i < length (map (\<lambda>c. map node_label (mm_nodes c)) (node_children t))"
    then have i: "i < length (children (h ! r))" using len by simp
    with rd have "convertToMindMap f h (children (h ! r) ! i) (lv + 1) i = Some (node_children t ! i)"
      by simp
    from Suc.IH [OF this] show "map (\<lambda>c. map node_label (mm_nodes c)) (node_children t) ! i =
        map (\<lambda>c. map (\<lambda>i. content (h ! i)) (subtree_refs f (graph1 h) c)) (children (h ! r)) ! i"
      using i len by simp
  qed
  then have "map node_label (concat (map mm_nodes (node_children t))) =
      map (\<lambda>i. content (h ! i)) (concat (map (subtree_refs f (graph1 h)) (children (h ! r))))"
    by (simp add: map_concat comp_def)
  moreover have "graph1 h ! r = children (h ! r)" using r by (simp add: graph1_def)
  ultimately show ?case using lab by (subst mm_nodes_unfold) simp
qed

lemma content_step1:
  assumes "inv1 st"
  shows "i < length (fst st) \<Longrightarrow> content (fst (step1 st line) ! i) = content (fst st ! i)"
    and "i < length (fst st) \<Longrightarrow> level (fst (step1 st line) ! i) = level (fst st ! i)"
    and "content (fst (step1 st line) ! length (fst st)) = trim (strip_heading line)"
    and "level (fst (step1 st line) ! length (fst st)) = int (heading_level line)"
proof -
  obtain h stack where st: "st = (h, stack)" by (cases st)
  from assms(1) st have ne: "stack \<noteq> []" and bound: "\<forall>r\<in>set stack. r < length h"
    by (simp_all add: inv1_def Let_def)
  from step1_char [OF ne bound, of line] obtain k where k: "0 < k" "k \<le> length stack"
    and s: "step1 (h, stack) line =
       ((h @ [new_node line])[stack ! (k - 1) := push_child (length h) (h ! (stack ! (k - 1)))],
        take k stack @ [length h])"
    by blast
  have p: "stack ! (k - 1) < length h" using k bound by (simp add: nth_mem)
  show "i < length (fst st) \<Longrightarrow> content (fst (step1 st line) ! i) = content (fst st ! i)"
    and "i < length (fst st) \<Longrightarrow> level (fst (step1 st line) ! i) = level (fst st ! i)"
    using p unfolding st s
    by (simp_all add: nth_list_update nth_append push_child_def)
  show "content (fst (step1 st line) ! length (fst st)) = trim (strip_heading line)"
    and "level (fst (step1 st line) ! length (fst st)) = int (heading_level line)"
    using p unfolding st s
    by (simp_all add: nth_list_update nth_append new_node_def)
qed

lemma content_foldl:
  "inv1 st \<Longrightarrow> i < length (fst st) \<Longrightarrow>
   content (fst (foldl step1 st ls) ! i) = content (fst st ! i) \<and>
   level (fst (foldl step1 st ls) ! i) = level (fst st ! i)"
proof (induction ls arbitrary: st)
  case Nil
  then show ?case by simp
next
  case (Cons l ls)
  have "i < length (fst (step1 st l))" using Cons.prems(2) by (simp add: length_step1)
  from Cons.IH [OF inv1_step [OF Cons.prems(1)] this] content_step1(1,2) [OF Cons.prems]
  show ?case by simp
qed

lemma entry_of_line:
  assumes "i < length ls"
  shows "content (fst (run1 ls) ! Suc i) = trim (strip_heading (ls ! i)) \<and>
         level (fst (run1 ls) ! Suc i) = int (heading_level (ls ! i))"
proof -
  let ?pre = "take i ls"
  let ?st = "run1 ?pre"
  have ls: "ls = ?pre @ ls ! i # drop (Suc i) ls" using assms by (simp add: id_take_nth_drop)
  have len: "length (fst ?st) = Suc i" using assms by (simp add: length_run1 min_def)
  have run: "run1 ls = foldl step1 (step1 ?st (ls ! i)) (drop (Suc i) ls)"
    by (subst ls) (simp add: run1_def)
  have inv: "inv1 (step1 ?st (ls ! i))" by (rule inv1_step [OF inv1_run1])
  have "Suc i < length (fst (step1 ?st (ls ! i)))" by (simp add: length_step1 len)
  from content_foldl [OF inv this, of "drop (Suc i) ls"]
    content_step1(3,4) [OF inv1_run1, where ls1 = ?pre and line = "ls ! i"] len
  show ?thesis by (simp add: run)
qed

lemma disjoint_subtrees:
  assumes inv: "inv1 (h, stack)" and c0: "children (h ! 0) = c0 # rest"
    and c: "c \<in> set rest" and x: "x \<in> set (refs (graph1 h) c)"
  shows "x \<notin> set (refs (graph1 h) c0)"
proof -
  from inv have wf: "wf_graph (graph1 h)" and hne: "h \<noteq> []"
    and ms: "mset (refs (graph1 h) 0) = mset [0..<length h]"
    by (simp_all add: inv1_def Let_def)
  have "distinct (refs (graph1 h) 0)"
    using ms by (metis distinct_upt mset_eq_imp_distinct_iff)
  moreover have "refs (graph1 h) 0 = 0 # concat (map (refs (graph1 h)) (graph1 h ! 0))"
    using hne by (intro refs_rec [OF wf]) (simp add: graph1_def)
  moreover have "graph1 h ! 0 = c0 # rest" using hne c0 by (simp add: graph1_def)
  ultimately have d: "distinct (refs (graph1 h) c0 @ concat (map (refs (graph1 h)) rest))"
    by simp
  from c x have "x \<in> set (concat (map (refs (graph1 h)) rest))" by auto
  with d show ?thesis by auto
qed

section \<open>Counting the nodes: the first scheme\<close>











section \<open>Counting the nodes: the second scheme\<close>



definition heading_lines :: "string list \<Rightarrow> string list" where
  "heading_lines ls = filter (\<lambda>x. 0 < heading_level x) ls"

lemma foldl_step2_headings:
  "foldl (step2 cc) st ls = foldl (step2 cc) st (heading_lines ls)"
  by (induction ls arbitrary: st) (simp_all add: heading_lines_def step2_skip)





lemma length_heap_headings:
  "length (heap (foldl (step2 cc) st ls)) = length (heap st) + length (heading_lines ls)"
  by (induction ls arbitrary: st) (simp_all add: heading_lines_def step2_skip length_step2)





text \<open>
  C9: in the first scheme every non-blank line \<open>i\<close> is the entry in cell \<open>i + 1\<close> of
  the store, and the returned tree is the tree below the first child \<open>c0\<close> of the
  virtual root (cell 0): its nodes are, in order, the entries \<open>refs \<dots> c0\<close>. An entry
  \<open>c\<close> that is a later child of the virtual root, and every entry \<open>x\<close> below it, is
  none of them.
\<close>

theorem C9_later_top_entries_absent:
  assumes "children (fst (run1 (lines1 s)) ! 0) = c0 # rest"
    and "c \<in> set rest"
    and "x \<in> set (refs (graph1 (fst (run1 (lines1 s)))) c)"
  shows "(\<forall>i<length (lines1 s).
            content (fst (run1 (lines1 s)) ! Suc i) = trim (strip_heading (lines1 s ! i))) \<and>
         (\<exists>t. parseMarkdown1 s = Inr t \<and>
              map node_label (mm_nodes t) =
                map (\<lambda>i. content (fst (run1 (lines1 s)) ! i))
                    (refs (graph1 (fst (run1 (lines1 s)))) c0)) \<and>
         c \<in> set (refs (graph1 (fst (run1 (lines1 s)))) c) \<and>
         c \<notin> set (refs (graph1 (fst (run1 (lines1 s)))) c0) \<and>
         x \<notin> set (refs (graph1 (fst (run1 (lines1 s)))) c0)"
proof -
  let ?h = "fst (run1 (lines1 s))"
  let ?g = "graph1 ?h"
  obtain stack where run: "run1 (lines1 s) = (?h, stack)" by (cases "run1 (lines1 s)") simp
  have inv: "inv1 (?h, stack)" using inv1_run1 [of "lines1 s"] run by simp
  then have wf: "wf_graph ?g" and hne: "?h \<noteq> []" by (simp_all add: inv1_def Let_def)
  have lg: "length ?g = length ?h" by (simp add: graph1_def)
  have g0: "?g ! 0 = c0 # rest" using hne assms(1) by (simp add: graph1_def)
  have kids: "0 < k \<and> k < length ?g" if "k \<in> set (c0 # rest)" for k
  proof -
    from that have "k \<in> set (?g ! 0)" by (simp only: g0)
    moreover have "0 < length ?g" using hne lg by simp
    ultimately show ?thesis using wf by (intro wf_graphD)
  qed
  have 1: "\<forall>i<length (lines1 s). content (?h ! Suc i) = trim (strip_heading (lines1 s ! i))"
    using entry_of_line [of _ "lines1 s"] by blast
  from kids [of c0] have c0l: "c0 < length ?h" by (simp add: lg)
  from convertToMindMap_Some [OF wf c0l, of "length ?h" 0 0] obtain t where
    conv: "convertToMindMap (length ?h) ?h c0 0 0 = Some t"
    by auto
  then have p: "parseMarkdown1 s = Inr t" by (simp add: parseMarkdown1_def result1_def assms(1))
  from convertToMindMap_refs [OF conv]
  have labels: "map node_label (mm_nodes t) = map (\<lambda>i. content (?h ! i)) (refs ?g c0)"
    by (simp add: refs_def lg)
  from kids [of c] assms(2) have cl: "c < length ?g" by simp
  from refs_rec [OF wf cl] have cc: "c \<in> set (refs ?g c)" by simp
  from disjoint_subtrees [OF inv assms(1,2) cc] have 3: "c \<notin> set (refs ?g c0)" .
  from disjoint_subtrees [OF inv assms] have 4: "x \<notin> set (refs ?g c0)" .
  from 1 p labels cc 3 4 show ?thesis by blast
qed

theorem C9_later_top_entries_absent_witness:
  "parseMarkdown1 (''# A'' @ [CHR 0x0A] @ ''## A1'' @ [CHR 0x0A] @ ''# B'' @ [CHR 0x0A] @ ''## B1'') =
     Inr (MindMapNode ''node-0-0'' ''A'' 0 0 [MindMapNode ''node-1-0'' ''A1'' 200 0 []]) \<and>
   3 \<notin> set (refs (graph1 (fst (run1 (lines1
     (''# A'' @ [CHR 0x0A] @ ''## A1'' @ [CHR 0x0A] @ ''# B'' @ [CHR 0x0A] @ ''## B1''))))) 1) \<and>
   4 \<notin> set (refs (graph1 (fst (run1 (lines1
     (''# A'' @ [CHR 0x0A] @ ''## A1'' @ [CHR 0x0A] @ ''# B'' @ [CHR 0x0A] @ ''## B1''))))) 1)"
proof -
  let ?S = "''# A'' @ [CHR 0x0A] @ ''## A1'' @ [CHR 0x0A] @ ''# B'' @ [CHR 0x0A] @ ''## B1''"
  have a: "children (fst (run1 (lines1 ?S)) ! 0) = 1 # [3]" by code_simp
  have b: "(3::nat) \<in> set [3]" by simp
  have c: "4 \<in> set (refs (graph1 (fst (run1 (lines1 ?S)))) 3)" by code_simp
  have p: "parseMarkdown1 ?S =
      Inr (MindMapNode ''node-0-0'' ''A'' 0 0 [MindMapNode ''node-1-0'' ''A1'' 200 0 []])"
    by code_simp
  from C9_later_top_entries_absent [OF a b c] p show ?thesis by blast
qed

section \<open>Where a tag and an annotation stand in a line\<close>

text \<open>
  Where a colour tag and an annotation stand in a line, said without the matching
  functions. A colour tag \<^verbatim>\<open>[c]\<close> stands at position \<open>i\<close> when the line, from \<open>i\<close> on,
  reads \<^verbatim>\<open>[\<close>, a colour value \<open>c\<close>, \<^verbatim>\<open>]\<close>. An annotation \<open>e\<close> stands at position \<open>i\<close>
  when the line, from \<open>i\<close> on, reads \<^verbatim>\<open>(\<close>, \<open>e\<close>, \<^verbatim>\<open>)\<close> and ends there, \<open>e\<close> holding
  no line feed and no carriage return (the \<^verbatim>\<open>.\<close> of the regular expression matches
  neither). The colour of a line is the value of its leftmost tag, or \<^verbatim>\<open>#212529\<close>
  without a tag; its edge label is the annotation at the leftmost position that has
  one, or unset.
\<close>

definition color_tag_at :: "string \<Rightarrow> nat \<Rightarrow> string \<Rightarrow> bool" where
  "color_tag_at line i c \<longleftrightarrow>
     is_hex_color c \<and> (\<exists>post. drop i line = ''['' @ c @ '']'' @ post)"

definition annotation_at :: "string \<Rightarrow> nat \<Rightarrow> string \<Rightarrow> bool" where
  "annotation_at line i e \<longleftrightarrow>
     drop i line = ''('' @ e @ '')'' \<and> (\<forall>x\<in>set e. x \<noteq> CHR 0x0A \<and> x \<noteq> CHR 0x0D)"

definition color_ok :: "string \<Rightarrow> string \<Rightarrow> bool" where
  "color_ok line c \<longleftrightarrow>
     (\<exists>i. color_tag_at line i c \<and> (\<forall>j c'. color_tag_at line j c' \<longrightarrow> i \<le> j)) \<or>
     ((\<forall>j c'. \<not> color_tag_at line j c') \<and> c = ''#212529'')"

definition edgeLabel_ok :: "string \<Rightarrow> string option \<Rightarrow> bool" where
  "edgeLabel_ok line eo \<longleftrightarrow>
     (case eo of
        Some e \<Rightarrow> \<exists>i. annotation_at line i e \<and> (\<forall>j e'. annotation_at line j e' \<longrightarrow> i \<le> j)
      | None \<Rightarrow> \<forall>j e'. \<not> annotation_at line j e')"

text \<open>
  The specification's own words for the annotation: a parenthesised group that ends
  the line.
\<close>

definition spec_annotation :: "string \<Rightarrow> string \<Rightarrow> bool" where
  "spec_annotation line e \<longleftrightarrow> (\<exists>pre. line = pre @ ''('' @ e @ '')'')"

lemma color_tag_at_Suc: "color_tag_at (a # line) (Suc i) c \<longleftrightarrow> color_tag_at line i c"
  by (simp add: color_tag_at_def)

lemma color_tag_at_Nil: "\<not> color_tag_at [] i c"
  by (simp add: color_tag_at_def)

lemma color_tag_at_0:
  assumes "color_tag_at (a # cs) 0 c"
  shows "color_at (a # cs)" and "c = take 7 cs"
proof -
  from assms obtain post hex where s: "a # cs = CHR ''['' # c @ CHR '']'' # post"
    and c: "c = CHR ''#'' # hex" and l: "length hex = 6"
    and x: "\<forall>x\<in>set hex. x \<in> set ''0123456789abcdefABCDEF''"
    unfolding color_tag_at_def is_hex_color_def by auto
  from s c have "a # cs = CHR ''['' # CHR ''#'' # hex @ CHR '']'' # post" by simp
  with l x show "color_at (a # cs)" unfolding color_at_iff isHexDigit_iff by blast
  have "take 6 (hex @ CHR '']'' # post) = hex" using l by simp
  moreover from s c have "cs = CHR ''#'' # hex @ CHR '']'' # post" by simp
  ultimately show "c = take 7 cs" using c by simp
qed

lemma color_at_tag_0:
  assumes "color_at (a # cs)"
  shows "color_tag_at (a # cs) 0 (take 7 cs)"
proof -
  from assms obtain hex post where s: "a # cs = CHR ''['' # CHR ''#'' # hex @ CHR '']'' # post"
    and l: "length hex = 6" and h: "\<forall>x\<in>set hex. isHexDigit x"
    unfolding color_at_iff by blast
  from s have cs: "cs = CHR ''#'' # hex @ CHR '']'' # post" and a: "a = CHR ''[''" by simp_all
  have "take 6 (hex @ CHR '']'' # post) = hex" using l by simp
  then have t: "take 7 cs = CHR ''#'' # hex" by (simp add: cs)
  have "is_hex_color (CHR ''#'' # hex)"
    unfolding is_hex_color_def using l h by (auto simp: isHexDigit_iff)
  moreover have "drop 0 (a # cs) = ''['' @ (CHR ''#'' # hex) @ '']'' @ post"
    by (simp add: a cs)
  ultimately show ?thesis unfolding color_tag_at_def t by blast
qed

lemma colorMatch_None: "colorMatch line = None \<Longrightarrow> \<not> color_tag_at line j c"
proof (induction line arbitrary: j)
  case Nil
  show ?case by (rule color_tag_at_Nil)
next
  case (Cons a line)
  from Cons.prems have n: "\<not> color_at (a # line)" and m: "colorMatch line = None"
    by (simp_all split: if_splits)
  show ?case
  proof (cases j)
    case 0
    with n color_tag_at_0(1) [of a line c] show ?thesis by blast
  next
    case (Suc k)
    with Cons.IH [OF m, of k] show ?thesis by (simp add: color_tag_at_Suc)
  qed
qed

lemma colorMatch_Some:
  "colorMatch line = Some c \<Longrightarrow>
   \<exists>i. color_tag_at line i c \<and> (\<forall>j c'. color_tag_at line j c' \<longrightarrow> i \<le> j)"
proof (induction line)
  case Nil
  then show ?case by simp
next
  case (Cons a line)
  show ?case
  proof (cases "color_at (a # line)")
    case True
    with Cons.prems have "c = take 7 line" by simp
    with color_at_tag_0 [OF True] have "color_tag_at (a # line) 0 c" by simp
    then show ?thesis by (intro exI [of _ 0]) simp
  next
    case False
    with Cons.prems have "colorMatch line = Some c" by simp
    from Cons.IH [OF this] obtain i where i: "color_tag_at line i c"
      and least: "\<forall>j c'. color_tag_at line j c' \<longrightarrow> i \<le> j"
      by blast
    have "Suc i \<le> j" if "color_tag_at (a # line) j c'" for j c'
    proof (cases j)
      case 0
      with that False color_tag_at_0(1) [of a line c'] show ?thesis by blast
    next
      case (Suc k)
      with that have "color_tag_at line k c'" by (simp add: color_tag_at_Suc)
      with least Suc show ?thesis by auto
    qed
    moreover have "color_tag_at (a # line) (Suc i) c" using i by (simp add: color_tag_at_Suc)
    ultimately show ?thesis by blast
  qed
qed

lemma annotation_at_Suc: "annotation_at (a # line) (Suc i) e \<longleftrightarrow> annotation_at line i e"
  by (simp add: annotation_at_def)

lemma annotation_at_Nil: "\<not> annotation_at [] i e"
  by (simp add: annotation_at_def)

lemma annotation_at_0:
  assumes "annotation_at (a # cs) 0 e"
  shows "paren_at (a # cs)" and "e = butlast cs"
proof -
  from assms have s: "a # cs = CHR ''('' # e @ [CHR '')'']"
    and x: "\<forall>x\<in>set e. x \<noteq> CHR 0x0A \<and> x \<noteq> CHR 0x0D"
    by (simp_all add: annotation_at_def)
  from s x show "paren_at (a # cs)"
    unfolding paren_at_iff by (auto simp: isLineTerminator_def)
  from s show "e = butlast cs" by simp
qed

lemma paren_at_annotation_0:
  assumes "paren_at (a # cs)"
  shows "annotation_at (a # cs) 0 (butlast cs)"
proof -
  from assms obtain e where s: "a # cs = CHR ''('' # e @ [CHR '')'']"
    and x: "\<forall>x\<in>set e. \<not> isLineTerminator x"
    unfolding paren_at_iff by blast
  from s have "butlast cs = e" by simp
  with s x show ?thesis by (auto simp: annotation_at_def isLineTerminator_def)
qed

lemma edgeLabelMatch_None: "edgeLabelMatch line = None \<Longrightarrow> \<not> annotation_at line j e"
proof (induction line arbitrary: j)
  case Nil
  show ?case by (rule annotation_at_Nil)
next
  case (Cons a line)
  from Cons.prems have n: "\<not> paren_at (a # line)" and m: "edgeLabelMatch line = None"
    by (simp_all split: if_splits)
  show ?case
  proof (cases j)
    case 0
    with n annotation_at_0(1) [of a line e] show ?thesis by blast
  next
    case (Suc k)
    with Cons.IH [OF m, of k] show ?thesis by (simp add: annotation_at_Suc)
  qed
qed

lemma edgeLabelMatch_Some:
  "edgeLabelMatch line = Some e \<Longrightarrow>
   \<exists>i. annotation_at line i e \<and> (\<forall>j e'. annotation_at line j e' \<longrightarrow> i \<le> j)"
proof (induction line)
  case Nil
  then show ?case by simp
next
  case (Cons a line)
  show ?case
  proof (cases "paren_at (a # line)")
    case True
    with Cons.prems have "e = butlast line" by simp
    with paren_at_annotation_0 [OF True] have "annotation_at (a # line) 0 e" by simp
    then show ?thesis by (intro exI [of _ 0]) simp
  next
    case False
    with Cons.prems have "edgeLabelMatch line = Some e" by simp
    from Cons.IH [OF this] obtain i where i: "annotation_at line i e"
      and least: "\<forall>j e'. annotation_at line j e' \<longrightarrow> i \<le> j"
      by blast
    have "Suc i \<le> j" if "annotation_at (a # line) j e'" for j e'
    proof (cases j)
      case 0
      with that False annotation_at_0(1) [of a line e'] show ?thesis by blast
    next
      case (Suc k)
      with that have "annotation_at line k e'" by (simp add: annotation_at_Suc)
      with least Suc show ?thesis by auto
    qed
    moreover have "annotation_at (a # line) (Suc i) e" using i by (simp add: annotation_at_Suc)
    ultimately show ?thesis by blast
  qed
qed

lemma parseLine_color_ok: "color_ok line (pl_color (parseLine line))"
proof (cases "colorMatch line")
  case None
  then show ?thesis using colorMatch_None [OF None] by (simp add: color_ok_def parseLine_def)
next
  case (Some c)
  from colorMatch_Some [OF Some] show ?thesis using Some by (simp add: color_ok_def parseLine_def)
qed

lemma parseLine_edgeLabel_ok: "edgeLabel_ok line (pl_edgeLabel (parseLine line))"
proof (cases "edgeLabelMatch line")
  case None
  then show ?thesis using edgeLabelMatch_None [OF None] by (simp add: edgeLabel_ok_def parseLine_def)
next
  case (Some e)
  from edgeLabelMatch_Some [OF Some] show ?thesis using Some by (simp add: edgeLabel_ok_def parseLine_def)
qed

text \<open>Cell \<open>i\<close> of the second scheme's store is made from heading line \<open>i\<close>.\<close>

lemma heading_lines_id: "\<forall>x\<in>set xs. 0 < heading_level x \<Longrightarrow> heading_lines xs = xs"
  by (simp add: heading_lines_def filter_id_conv)

lemma cell_of_heading_line:
  assumes i: "i < length (heading_lines ls)"
  shows "cell_of_line (heading_lines ls ! i) (heap (run2 ls) ! i)"
proof -
  let ?cc = "foldl count_step Map.empty ls"
  let ?hs = "heading_lines ls"
  let ?st = "foldl (step2 ?cc) init2 (take i ?hs)"
  let ?st' = "step2 ?cc ?st (?hs ! i)"
  have all: "\<forall>x\<in>set ?hs. 0 < heading_level x" by (simp add: heading_lines_def)
  then have pos: "0 < heading_level (?hs ! i)" using i by (simp add: nth_mem)
  have "\<forall>x\<in>set (take i ?hs). 0 < heading_level x" using all by (auto dest: in_set_takeD)
  from heading_lines_id [OF this] have "length (heading_lines (take i ?hs)) = i"
    using i by simp
  then have len: "length (heap ?st) = i"
    using length_heap_headings [of ?cc init2 "take i ?hs"] by (simp add: init2_def)
  have b: "base2 ?st" by (rule base2_foldl [OF base2_init])
  have hs: "?hs = take i ?hs @ ?hs ! i # drop (Suc i) ?hs" using i by (simp add: id_take_nth_drop)
  have "run2 ls = foldl (step2 ?cc) init2 ?hs"
    unfolding run2_def by (rule foldl_step2_headings)
  also have "\<dots> = foldl (step2 ?cc) ?st' (drop (Suc i) ?hs)"
    by (subst hs) simp
  finally have run: "run2 ls = foldl (step2 ?cc) ?st' (drop (Suc i) ?hs)" .
  have new: "heap ?st' ! i = new_cell ?cc ?st (?hs ! i)"
    using step2_nth_new [OF b pos, of ?cc] len by simp
  have "i < length (heap ?st')" using len by (simp add: length_step2 [OF pos])
  from old_cell_foldl [OF base2_step [OF b] this, of ?cc "drop (Suc i) ?hs"]
  have "cell_fields (heap (run2 ls) ! i) = cell_fields (heap ?st' ! i)"
    unfolding run by blast
  with new pos show ?thesis by (simp add: cell_fields_def cell_of_line_def new_cell_def)
qed

lemma length_heap_run2: "length (heap (run2 ls)) = length (heading_lines ls)"
  unfolding run2_def using length_heap_headings [of _ init2 ls] by (simp add: init2_def)

lemma root_foldl_keep: "root st \<noteq> None \<Longrightarrow> root (foldl (step2 cc) st ls) \<noteq> None"
proof (induction ls arbitrary: st)
  case Nil
  then show ?case by simp
next
  case (Cons l ls)
  have "root (step2 cc st l) \<noteq> None"
    using Cons.prems by (cases "heading_level l = 0") (simp_all add: step2_skip step2_root)
  from Cons.IH [OF this] show ?case by simp
qed

lemma root_foldl_Some:
  "\<exists>line\<in>set ls. heading_level line = 1 \<Longrightarrow> root (foldl (step2 cc) st ls) \<noteq> None"
proof (induction ls arbitrary: st)
  case Nil
  then show ?case by simp
next
  case (Cons l ls)
  show ?case
  proof (cases "heading_level l = 1")
    case True
    then have "root (step2 cc st l) \<noteq> None" by (simp add: step2_root)
    from root_foldl_keep [OF this] show ?thesis by simp
  next
    case False
    with Cons.prems have "\<exists>line\<in>set ls. heading_level line = 1" by simp
    from Cons.IH [OF this] show ?thesis by simp
  qed
qed

section \<open>The fields of a node and its own line\<close>

text \<open>
  The cells of the store that the returned tree is read from, in the order of its nodes:
  in the second scheme the tree below \<^verbatim>\<open>root\<close>, in the first scheme the tree below
  \<^verbatim>\<open>root.children[0]\<close>.
\<close>

definition cells2 :: "string \<Rightarrow> nat list" where
  "cells2 s =
     (case root (run2 (lines2 s)) of
        None \<Rightarrow> []
      | Some r \<Rightarrow> refs (graph2 (heap (run2 (lines2 s)))) r)"

definition entries1 :: "string \<Rightarrow> nat list" where
  "entries1 s =
     (case children (fst (run1 (lines1 s)) ! 0) of
        [] \<Rightarrow> []
      | c0 # rest \<Rightarrow> refs (graph1 (fst (run1 (lines1 s)))) c0)"

lemma subtree_refs_ge:
  "wf_graph g \<Longrightarrow> r < length g \<Longrightarrow> x \<in> set (subtree_refs f g r) \<Longrightarrow> r \<le> x"
proof (induction f arbitrary: r)
  case 0
  then show ?case by simp
next
  case (Suc f)
  show ?case
  proof (cases "x = r")
    case True
    then show ?thesis by simp
  next
    case False
    with Suc.prems(3) obtain c where c: "c \<in> set (g ! r)" and x: "x \<in> set (subtree_refs f g c)"
      by auto
    from wf_graphD [OF Suc.prems(1,2) c] have "r < c" "c < length g" by simp_all
    with Suc.IH [OF Suc.prems(1) _ x] show ?thesis by simp
  qed
qed

lemma nodes_of_lines2:
  assumes r: "root (run2 ls) = Some r" and u: "result2 (run2 ls) = Some u"
  shows "length (nd_nodes u) = length (refs (graph2 (heap (run2 ls))) r)"
    and "k < length (nd_nodes u) \<Longrightarrow>
         refs (graph2 (heap (run2 ls))) r ! k < length (heading_lines ls) \<and>
         nd_label (nd_nodes u ! k) =
           pl_label (parseLine (heading_lines ls ! (refs (graph2 (heap (run2 ls))) r ! k))) \<and>
         color_ok (heading_lines ls ! (refs (graph2 (heap (run2 ls))) r ! k)) (nd_color (nd_nodes u ! k)) \<and>
         edgeLabel_ok (heading_lines ls ! (refs (graph2 (heap (run2 ls))) r ! k))
           (nd_edgeLabel (nd_nodes u ! k))"
proof -
  let ?h = "heap (run2 ls)"
  let ?rs = "refs (graph2 ?h) r"
  note m = result2_refs [OF r u]
  from m have "length (map nd_fields (nd_nodes u)) = length (map (\<lambda>i. cell_fields (?h ! i)) ?rs)"
    by (simp only:)
  then show len: "length (nd_nodes u) = length ?rs" by simp
  assume k: "k < length (nd_nodes u)"
  have b: "base2 (run2 ls)" by (rule base2_run2)
  then have wf: "wf_graph (graph2 ?h)" and rl: "r < length ?h" using r by (auto simp: base2_def)
  have lg: "length (graph2 ?h) = length ?h" by (simp add: graph2_def)
  have "?rs ! k \<in> set (subtree_refs (length (graph2 ?h)) (graph2 ?h) r)"
    using k len by (simp add: refs_def)
  from subtree_refs_range [OF wf _ this] rl lg have "?rs ! k < length ?h" by simp
  then have i: "?rs ! k < length (heading_lines ls)" by (simp add: length_heap_run2)
  from m have "map nd_fields (nd_nodes u) ! k = map (\<lambda>i. cell_fields (?h ! i)) ?rs ! k"
    by (simp only:)
  then have f: "nd_fields (nd_nodes u ! k) = cell_fields (?h ! (?rs ! k))"
    using k len by simp
  from cell_of_heading_line [OF i] f
  have "nd_label (nd_nodes u ! k) = pl_label (parseLine (heading_lines ls ! (?rs ! k)))"
    "nd_color (nd_nodes u ! k) = pl_color (parseLine (heading_lines ls ! (?rs ! k)))"
    "nd_edgeLabel (nd_nodes u ! k) = pl_edgeLabel (parseLine (heading_lines ls ! (?rs ! k)))"
    by (simp_all add: cell_of_line_def nd_fields_def cell_fields_def)
  with i show "?rs ! k < length (heading_lines ls) \<and>
         nd_label (nd_nodes u ! k) = pl_label (parseLine (heading_lines ls ! (?rs ! k))) \<and>
         color_ok (heading_lines ls ! (?rs ! k)) (nd_color (nd_nodes u ! k)) \<and>
         edgeLabel_ok (heading_lines ls ! (?rs ! k)) (nd_edgeLabel (nd_nodes u ! k))"
    by (simp add: parseLine_color_ok parseLine_edgeLabel_ok)
qed

lemma nodes_of_lines1:
  assumes "parseMarkdown1 s = Inr t"
  shows "length (mm_nodes t) = length (entries1 s) \<and>
     (\<forall>k<length (mm_nodes t).
        0 < entries1 s ! k \<and> entries1 s ! k \<le> length (lines1 s) \<and>
        node_label (mm_nodes t ! k) = trim (strip_heading (lines1 s ! (entries1 s ! k - 1))))"
proof -
  let ?h = "fst (run1 (lines1 s))"
  let ?g = "graph1 ?h"
  from assms obtain c0 rest where c0: "children (?h ! 0) = c0 # rest"
    and conv: "convertToMindMap (length ?h) ?h c0 0 0 = Some t"
    by (auto simp: parseMarkdown1_def result1_def split: list.splits option.splits)
  let ?rs = "refs ?g c0"
  obtain stack where run: "run1 (lines1 s) = (?h, stack)" by (cases "run1 (lines1 s)") simp
  have inv: "inv1 (?h, stack)" using inv1_run1 [of "lines1 s"] run by simp
  then have wf: "wf_graph ?g" and hne: "?h \<noteq> []" by (simp_all add: inv1_def Let_def)
  have lg: "length ?g = length ?h" by (simp add: graph1_def)
  have "c0 \<in> set (?g ! 0)" using hne c0 by (simp add: graph1_def)
  moreover have "0 < length ?g" using hne lg by simp
  ultimately have c0b: "0 < c0 \<and> c0 < length ?g" using wf by (intro wf_graphD)
  have len_h: "length ?h = Suc (length (lines1 s))" by (rule length_run1)
  note m = convertToMindMap_refs [OF conv]
  from m have "length (map node_label (mm_nodes t)) =
      length (map (\<lambda>i. content (?h ! i)) (subtree_refs (length ?h) ?g c0))"
    by (simp only:)
  then have len: "length (mm_nodes t) = length ?rs" by (simp add: refs_def lg)
  have "0 < ?rs ! k \<and> ?rs ! k \<le> length (lines1 s) \<and>
        node_label (mm_nodes t ! k) = trim (strip_heading (lines1 s ! (?rs ! k - 1)))"
    if k: "k < length (mm_nodes t)" for k
  proof -
    have mem: "?rs ! k \<in> set (subtree_refs (length ?g) ?g c0)"
      using k len by (simp add: refs_def)
    from subtree_refs_range [OF wf _ mem] c0b have hi: "?rs ! k < length ?h" by (simp add: lg)
    from subtree_refs_ge [OF wf _ mem] c0b have lo: "0 < ?rs ! k" by simp
    from m have "map node_label (mm_nodes t) ! k =
        map (\<lambda>i. content (?h ! i)) (subtree_refs (length ?h) ?g c0) ! k"
      by (simp only:)
    then have "node_label (mm_nodes t ! k) = content (?h ! (?rs ! k))"
      using k len by (simp add: refs_def lg)
    moreover have "?rs ! k - 1 < length (lines1 s)" using hi lo len_h by simp
    from entry_of_line [OF this] lo
    have "content (?h ! (?rs ! k)) = trim (strip_heading (lines1 s ! (?rs ! k - 1)))" by simp
    ultimately show ?thesis using lo hi len_h by simp
  qed
  with len have "length (mm_nodes t) = length ?rs \<and>
     (\<forall>k<length (mm_nodes t).
        0 < ?rs ! k \<and> ?rs ! k \<le> length (lines1 s) \<and>
        node_label (mm_nodes t ! k) = trim (strip_heading (lines1 s ! (?rs ! k - 1))))"
    by blast
  moreover have "entries1 s = ?rs" by (simp add: entries1_def c0)
  ultimately show ?thesis by simp
qed


text \<open>
  C6, as amended. Only the nodes of the second scheme have a colour and an edge label.
  There, an input without a line of level 1 gives the fallback root (colour
  \<^verbatim>\<open>#4169e1\<close>, no edge label). Otherwise node \<open>k\<close> of the returned tree is made from
  heading line \<open>cells2 s ! k\<close>, and carries the fields \<^verbatim>\<open>parseLine\<close> reads off that
  line: the label, the colour (the value of the leftmost \<^verbatim>\<open>[#RRGGBB]\<close> tag of the line,
  hexadecimal digits of either case, or \<^verbatim>\<open>#212529\<close> when the line has no tag) and the
  edge label (the text between the parentheses of the group that ends the line, from
  the leftmost opening parenthesis after which no line feed and no carriage return
  occurs; unset when there is none). In the first scheme node \<open>k\<close> is made from line
  \<open>entries1 s ! k - 1\<close>, and its label is that line without the heading marker,
  trimmed, tags and annotations left in.
\<close>

theorem C6_fields_from_own_line:
  "((\<forall>line\<in>set (lines2 s). heading_level line \<noteq> 1) \<longrightarrow> parseMarkdown2 s = Some fallback) \<and>
   ((\<exists>line\<in>set (lines2 s). heading_level line = 1) \<longrightarrow>
      (\<exists>u. parseMarkdown2 s = Some u \<and>
         length (nd_nodes u) = length (cells2 s) \<and>
         (\<forall>k<length (nd_nodes u).
            cells2 s ! k < length (heading_lines (lines2 s)) \<and>
            nd_label (nd_nodes u ! k) =
              pl_label (parseLine (heading_lines (lines2 s) ! (cells2 s ! k))) \<and>
            color_ok (heading_lines (lines2 s) ! (cells2 s ! k)) (nd_color (nd_nodes u ! k)) \<and>
            edgeLabel_ok (heading_lines (lines2 s) ! (cells2 s ! k))
              (nd_edgeLabel (nd_nodes u ! k))))) \<and>
   (parseMarkdown1 s = Inr t \<longrightarrow>
      length (mm_nodes t) = length (entries1 s) \<and>
      (\<forall>k<length (mm_nodes t).
         0 < entries1 s ! k \<and> entries1 s ! k \<le> length (lines1 s) \<and>
         node_label (mm_nodes t ! k) = trim (strip_heading (lines1 s ! (entries1 s ! k - 1)))))"
proof (intro conjI impI)
  assume "\<forall>line\<in>set (lines2 s). heading_level line \<noteq> 1"
  then show "parseMarkdown2 s = Some fallback" by (rule parseMarkdown2_fallback)
next
  assume "\<exists>line\<in>set (lines2 s). heading_level line = 1"
  from root_foldl_Some [OF this, of "foldl count_step Map.empty (lines2 s)" init2]
  obtain r where r: "root (run2 (lines2 s)) = Some r" by (auto simp: run2_def)
  from result2_returns [OF base2_run2] obtain u where u: "result2 (run2 (lines2 s)) = Some u"
    by blast
  have c: "cells2 s = refs (graph2 (heap (run2 (lines2 s)))) r" by (simp add: cells2_def r)
  from nodes_of_lines2 [OF r u, folded c] u
  show "\<exists>u. parseMarkdown2 s = Some u \<and>
         length (nd_nodes u) = length (cells2 s) \<and>
         (\<forall>k<length (nd_nodes u).
            cells2 s ! k < length (heading_lines (lines2 s)) \<and>
            nd_label (nd_nodes u ! k) =
              pl_label (parseLine (heading_lines (lines2 s) ! (cells2 s ! k))) \<and>
            color_ok (heading_lines (lines2 s) ! (cells2 s ! k)) (nd_color (nd_nodes u ! k)) \<and>
            edgeLabel_ok (heading_lines (lines2 s) ! (cells2 s ! k))
              (nd_edgeLabel (nd_nodes u ! k)))"
    unfolding parseMarkdown2_def by blast
next
  assume p: "parseMarkdown1 s = Inr t"
  from nodes_of_lines1 [OF p] show "length (mm_nodes t) = length (entries1 s)" by blast
  from nodes_of_lines1 [OF p]
  show "\<forall>k<length (mm_nodes t).
         0 < entries1 s ! k \<and> entries1 s ! k \<le> length (lines1 s) \<and>
         node_label (mm_nodes t ! k) = trim (strip_heading (lines1 s ! (entries1 s ! k - 1)))"
    by blast
qed

theorem C6_fields_from_own_line_witness:
  "(\<exists>line\<in>set (lines2 (''# A'' @ [CHR 0x0A] @ ''## B [#FF0000] (edge1)'' @ [CHR 0x0A] @ ''### C'')).
      heading_level line = 1) \<and>
   parseMarkdown2 (''# A'' @ [CHR 0x0A] @ ''## B [#FF0000] (edge1)'' @ [CHR 0x0A] @ ''### C'') =
     Some (NodeDataType ''a'' ''A'' ''#212529'' None 250 (Num 160)
            [NodeDataType ''b'' ''B'' ''#FF0000'' (Some ''edge1'') 500 (Num 80)
              [NodeDataType ''c'' ''C'' ''#212529'' None 750 (Num 0) []]]) \<and>
   cells2 (''# A'' @ [CHR 0x0A] @ ''## B [#FF0000] (edge1)'' @ [CHR 0x0A] @ ''### C'') = [0, 1, 2] \<and>
   heading_lines (lines2 (''# A'' @ [CHR 0x0A] @ ''## B [#FF0000] (edge1)'' @ [CHR 0x0A] @ ''### C'')) =
     [''# A'', ''## B [#FF0000] (edge1)'', ''### C''] \<and>
   color_ok ''## B [#FF0000] (edge1)'' ''#FF0000'' \<and>
   edgeLabel_ok ''## B [#FF0000] (edge1)'' (Some ''edge1'') \<and>
   color_ok ''### C'' ''#212529'' \<and>
   edgeLabel_ok ''### C'' None \<and>
   parseMarkdown1 (''# A'' @ [CHR 0x0A] @ ''## B [#FF0000] (edge1)'' @ [CHR 0x0A] @ ''### C'') =
     Inr (MindMapNode ''node-0-0'' ''A'' 0 0
           [MindMapNode ''node-1-0'' ''B [#FF0000] (edge1)'' 200 0
             [MindMapNode ''node-2-0'' ''C'' 400 0 []]]) \<and>
   entries1 (''# A'' @ [CHR 0x0A] @ ''## B [#FF0000] (edge1)'' @ [CHR 0x0A] @ ''### C'') = [1, 2, 3] \<and>
   trim (strip_heading ''## B [#FF0000] (edge1)'') = ''B [#FF0000] (edge1)'' \<and>
   parseMarkdown2 [] = Some fallback"
proof -
  let ?S = "''# A'' @ [CHR 0x0A] @ ''## B [#FF0000] (edge1)'' @ [CHR 0x0A] @ ''### C''"
  let ?C = "NodeDataType ''c'' ''C'' ''#212529'' None 750 (Num 0) []"
  let ?B = "NodeDataType ''b'' ''B'' ''#FF0000'' (Some ''edge1'') 500 (Num 80) [?C]"
  let ?U = "NodeDataType ''a'' ''A'' ''#212529'' None 250 (Num 160) [?B]"
  let ?T = "MindMapNode ''node-0-0'' ''A'' 0 0
           [MindMapNode ''node-1-0'' ''B [#FF0000] (edge1)'' 200 0
             [MindMapNode ''node-2-0'' ''C'' 400 0 []]]"
  have ex: "\<exists>line\<in>set (lines2 ?S). heading_level line = 1" by code_simp
  have p2: "parseMarkdown2 ?S = Some ?U" by code_simp
  have c: "cells2 ?S = [0, 1, 2]" by code_simp
  have hl: "heading_lines (lines2 ?S) = [''# A'', ''## B [#FF0000] (edge1)'', ''### C'']"
    by code_simp
  have nn: "nd_nodes ?U = [?U, ?B, ?C]" by code_simp
  have p1: "parseMarkdown1 ?S = Inr ?T" by code_simp
  have e: "entries1 ?S = [1, 2, 3]" by code_simp
  have l: "trim (strip_heading ''## B [#FF0000] (edge1)'') = ''B [#FF0000] (edge1)''" by code_simp
  have nf: "\<forall>line\<in>set (lines2 []). heading_level line \<noteq> 1" by code_simp
  from C6_fields_from_own_line [of "[]" ?T] nf have fb: "parseMarkdown2 [] = Some fallback"
    by blast
  from C6_fields_from_own_line [of ?S ?T] ex obtain u where u: "parseMarkdown2 ?S = Some u"
    and a: "\<forall>k<length (nd_nodes u).
            cells2 ?S ! k < length (heading_lines (lines2 ?S)) \<and>
            nd_label (nd_nodes u ! k) =
              pl_label (parseLine (heading_lines (lines2 ?S) ! (cells2 ?S ! k))) \<and>
            color_ok (heading_lines (lines2 ?S) ! (cells2 ?S ! k)) (nd_color (nd_nodes u ! k)) \<and>
            edgeLabel_ok (heading_lines (lines2 ?S) ! (cells2 ?S ! k))
              (nd_edgeLabel (nd_nodes u ! k))"
    by blast
  from u p2 have ueq: "u = ?U" by (simp only: option.inject)
  have n: "nd_nodes u = [?U, ?B, ?C]" unfolding ueq by (rule nn)
  have l1: "Suc 0 < length (nd_nodes u)" and l2: "Suc (Suc 0) < length (nd_nodes u)"
    unfolding n by simp_all
  have i1: "heading_lines (lines2 ?S) ! (cells2 ?S ! Suc 0) = ''## B [#FF0000] (edge1)''"
    and i2: "heading_lines (lines2 ?S) ! (cells2 ?S ! Suc (Suc 0)) = ''### C''"
    unfolding c hl by simp_all
  have f1: "nd_color (nd_nodes u ! Suc 0) = ''#FF0000''"
    "nd_edgeLabel (nd_nodes u ! Suc 0) = Some ''edge1''"
    "nd_color (nd_nodes u ! Suc (Suc 0)) = ''#212529''"
    "nd_edgeLabel (nd_nodes u ! Suc (Suc 0)) = None"
    unfolding n by simp_all
  from a [rule_format, OF l1]
  have b: "color_ok ''## B [#FF0000] (edge1)'' ''#FF0000''"
    "edgeLabel_ok ''## B [#FF0000] (edge1)'' (Some ''edge1'')"
    unfolding i1 f1 by blast+
  from a [rule_format, OF l2]
  have d: "color_ok ''### C'' ''#212529''" "edgeLabel_ok ''### C'' None"
    unfolding i2 f1 by blast+
  from ex p2 c hl b d p1 e l fb show ?thesis by (intro conjI)
qed

text \<open>
  The claim as stated fails in three ways. A node of the first scheme has no colour and
  no edge label, and keeps tag and annotation in its label. The fallback root of the
  second scheme has the colour \<^verbatim>\<open>#4169e1\<close>, while its input has no tag. And a
  parenthesised group that ends the line but holds a carriage return is no edge label.
\<close>

theorem C6_counterexample:
  "spec_annotation (''# A (x'' @ [CHR 0x0D] @ ''y)'') (''x'' @ [CHR 0x0D] @ ''y'') \<and>
   parseMarkdown2 (''# A (x'' @ [CHR 0x0D] @ ''y)'') =
     Some (NodeDataType ''a-(x-y)'' (''A (x'' @ [CHR 0x0D] @ ''y)'') ''#212529'' None 250 (Num 160) []) \<and>
   lines2 [] = [[]] \<and> colorMatch [] = None \<and>
   parseMarkdown2 [] = Some (NodeDataType ''nyc'' ''NYC'' ''#4169e1'' None 250 (Num 250) []) \<and>
   nd_color (NodeDataType ''nyc'' ''NYC'' ''#4169e1'' None 250 (Num 250) []) \<noteq> ''#212529'' \<and>
   parseMarkdown1 ''# A [#FF0000] (x)'' = Inr (MindMapNode ''node-0-0'' ''A [#FF0000] (x)'' 0 0 []) \<and>
   parseMarkdown2 ''# A [#FF0000] (x)'' =
     Some (NodeDataType ''a'' ''A'' ''#FF0000'' (Some ''x'') 250 (Num 160) [])"
proof (rule conjI)
  show "spec_annotation (''# A (x'' @ [CHR 0x0D] @ ''y)'') (''x'' @ [CHR 0x0D] @ ''y'')"
    unfolding spec_annotation_def by (rule exI [of _ "''# A ''"]) simp
  show "parseMarkdown2 (''# A (x'' @ [CHR 0x0D] @ ''y)'') =
     Some (NodeDataType ''a-(x-y)'' (''A (x'' @ [CHR 0x0D] @ ''y)'') ''#212529'' None 250 (Num 160) []) \<and>
   lines2 [] = [[]] \<and> colorMatch [] = None \<and>
   parseMarkdown2 [] = Some (NodeDataType ''nyc'' ''NYC'' ''#4169e1'' None 250 (Num 250) []) \<and>
   nd_color (NodeDataType ''nyc'' ''NYC'' ''#4169e1'' None 250 (Num 250) []) \<noteq> ''#212529'' \<and>
   parseMarkdown1 ''# A [#FF0000] (x)'' = Inr (MindMapNode ''node-0-0'' ''A [#FF0000] (x)'' 0 0 []) \<and>
   parseMarkdown2 ''# A [#FF0000] (x)'' =
     Some (NodeDataType ''a'' ''A'' ''#FF0000'' (Some ''x'') 250 (Num 160) [])"
    by code_simp
qed

section \<open>A call in a store that earlier calls have filled\<close>

text \<open>
  The objects a call allocates live on in the store after it returns. A call made in a
  store that already holds the cells \<open>h0\<close> allocates after them. Every variable of the
  function (\<^verbatim>\<open>root\<close>, \<^verbatim>\<open>lastNodeAtLevel\<close>, \<^verbatim>\<open>childCountByParent\<close>, lines 86 to 88) is
  declared inside it, so the call starts from \<open>init2\<close> with the store it finds;
  \<open>call2 h0 s\<close> is the state at the \<^verbatim>\<open>return\<close>.
\<close>

definition call2 :: "NodeCell list \<Rightarrow> string \<Rightarrow> state2" where
  "call2 h0 markdown =
     foldl (step2 (foldl count_step Map.empty (lines2 markdown))) (init2\<lparr>heap := h0\<rparr>)
       (lines2 markdown)"

text \<open>A cell with its references moved by \<open>k\<close>, and a state moved behind the cells \<open>h0\<close>.\<close>

definition shift2 :: "nat \<Rightarrow> NodeCell \<Rightarrow> NodeCell" where
  "shift2 k c = c\<lparr>cell_children := map (\<lambda>r. r + k) (cell_children c)\<rparr>"

definition sim2 :: "NodeCell list \<Rightarrow> state2 \<Rightarrow> state2 \<Rightarrow> bool" where
  "sim2 h0 st st' \<longleftrightarrow>
     heap st' = h0 @ map (shift2 (length h0)) (heap st) \<and>
     root st' = map_option (\<lambda>r. r + length h0) (root st) \<and>
     lastNodeAtLevel st' = (\<lambda>L. map_option (\<lambda>r. r + length h0) (lastNodeAtLevel st L))"

lemma sim2_init: "sim2 h0 init2 (init2\<lparr>heap := h0\<rparr>)"
  by (simp add: sim2_def init2_def)

lemma sim2_nth:
  "sim2 h0 st st' \<Longrightarrow> p < length (heap st) \<Longrightarrow>
   heap st' ! (p + length h0) = shift2 (length h0) (heap st ! p)"
  by (simp add: sim2_def nth_append)

lemma sim2_length: "sim2 h0 st st' \<Longrightarrow> length (heap st') = length h0 + length (heap st)"
  by (simp add: sim2_def)

lemma sim2_last:
  "sim2 h0 st st' \<Longrightarrow>
   lastNodeAtLevel st' L = map_option (\<lambda>r. r + length h0) (lastNodeAtLevel st L)"
  by (simp add: sim2_def)

lemma yPosition_sim2:
  assumes b: "base2 st" and s: "sim2 h0 st st'"
  shows "yPosition cc st' lv = yPosition cc st lv"
proof (cases "lastNodeAtLevel st (lv - Suc 0)")
  case None
  then have "lastNodeAtLevel st' (lv - Suc 0) = None" using sim2_last [OF s] by simp
  with None show ?thesis by (simp add: yPosition_def Let_def parentKey_def)
next
  case (Some p)
  then have p': "lastNodeAtLevel st' (lv - Suc 0) = Some (p + length h0)"
    using sim2_last [OF s] by simp
  from b Some have "p < length (heap st)" unfolding base2_def by blast
  from sim2_nth [OF s this] have c: "heap st' ! (p + length h0) = shift2 (length h0) (heap st ! p)" .
  show ?thesis
    by (simp add: yPosition_def Let_def parentKey_def Some p' c shift2_def)
qed

lemma new_cell_sim2:
  assumes "base2 st" "sim2 h0 st st'"
  shows "new_cell cc st' line = new_cell cc st line"
  by (simp add: new_cell_def yPosition_sim2 [OF assms])

lemma parent_of_sim2:
  "sim2 h0 st st' \<Longrightarrow> parent_of st' line = map_option (\<lambda>r. r + length h0) (parent_of st line)"
  by (simp add: parent_of_def sim2_last)

lemma shift2_new_cell: "shift2 k (new_cell cc st line) = new_cell cc st line"
  by (simp add: shift2_def new_cell_def)

lemma shift2_push:
  "push_child2 (k + n) (shift2 k c) = shift2 k (push_child2 n c)"
  by (simp add: shift2_def push_child2_def)

lemma shift2_sel:
  "cell_id (shift2 k c) = cell_id c" "cell_label (shift2 k c) = cell_label c"
  "cell_color (shift2 k c) = cell_color c" "cell_edgeLabel (shift2 k c) = cell_edgeLabel c"
  "cell_x (shift2 k c) = cell_x c" "cell_y (shift2 k c) = cell_y c"
  "cell_children (shift2 k c) = map (\<lambda>r. r + k) (cell_children c)"
  by (simp_all add: shift2_def)

lemma sim2_step:
  assumes b: "base2 st" and s: "sim2 h0 st st'"
  shows "sim2 h0 (step2 cc st line) (step2 cc st' line)"
proof (cases "heading_level line = 0")
  case True
  then show ?thesis using s by (simp add: step2_skip)
next
  case False
  then have pos: "0 < heading_level line" by simp
  let ?k = "length h0"
  let ?n = "new_cell cc st line"
  have len: "length (heap st') = ?k + length (heap st)" using sim2_length [OF s] by simp
  have hp: "heap st' = h0 @ map (shift2 ?k) (heap st)" using s by (simp add: sim2_def)
  have heap_eq: "heap (step2 cc st' line) = h0 @ map (shift2 ?k) (heap (step2 cc st line))"
  proof (cases "parent_of st line")
    case None
    then have "parent_of st' line = None" using parent_of_sim2 [OF s, of line] by simp
    with None show ?thesis
      by (simp add: step2_heap [OF pos] new_cell_sim2 [OF b s] hp shift2_new_cell)
  next
    case (Some p)
    then have p': "parent_of st' line = Some (p + ?k)" using parent_of_sim2 [OF s, of line] by simp
    from parent_of_bound [OF b Some] have pl: "p < length (heap st)" .
    have "(h0 @ map (shift2 ?k) (heap st) @ [?n])
            [p + ?k := push_child2 (?k + length (heap st)) (shift2 ?k (heap st ! p))] =
          h0 @ map (shift2 ?k) ((heap st @ [?n])[p := push_child2 (length (heap st)) (heap st ! p)])"
      using pl
      by (simp add: list_update_append map_update shift2_push shift2_new_cell)
    moreover have "(h0 @ map (shift2 ?k) (heap st) @ [?n]) ! (p + ?k) = shift2 ?k (heap st ! p)"
      using pl by (simp add: nth_append)
    moreover have "(heap st @ [?n]) ! p = heap st ! p" using pl by (simp add: nth_append)
    ultimately show ?thesis
      by (simp add: step2_heap [OF pos] Some p' new_cell_sim2 [OF b s] hp len)
  qed
  have root_eq: "root (step2 cc st' line) =
      map_option (\<lambda>r. r + ?k) (root (step2 cc st line))"
    using s by (simp add: step2_root [OF pos] len sim2_def)
  have last_eq: "lastNodeAtLevel (step2 cc st' line) =
      (\<lambda>L. map_option (\<lambda>r. r + ?k) (lastNodeAtLevel (step2 cc st line) L))"
    using s by (auto simp: step2_last [OF pos] len sim2_def fun_eq_iff)
  from heap_eq root_eq last_eq show ?thesis unfolding sim2_def by blast
qed

lemma sim2_foldl:
  "base2 st \<Longrightarrow> sim2 h0 st st' \<Longrightarrow>
   sim2 h0 (foldl (step2 cc) st ls) (foldl (step2 cc) st' ls)"
proof (induction ls arbitrary: st st')
  case Nil
  then show ?case by simp
next
  case (Cons l ls)
  from Cons.IH [OF base2_step [OF Cons.prems(1)] sim2_step [OF Cons.prems]]
  show ?case by simp
qed

lemma sim2_call2: "sim2 h0 (run2 (lines2 s)) (call2 h0 s)"
  unfolding run2_def call2_def by (rule sim2_foldl [OF base2_init sim2_init])

text \<open>Reading a tree out of the store does not depend on where its cells stand.\<close>

lemma read_node_moved:
  assumes wf: "wf_graph (graph2 h)"
  shows "r < length h \<Longrightarrow>
    read_node f (h0 @ map (shift2 (length h0)) h @ later) (r + length h0) = read_node f h r"
proof (induction f arbitrary: r)
  case 0
  then show ?case by simp
next
  case (Suc f)
  let ?h' = "h0 @ map (shift2 (length h0)) h @ later"
  have c: "?h' ! (r + length h0) = shift2 (length h0) (h ! r)"
    using Suc.prems by (simp add: nth_append)
  have "read_node f ?h' (x + length h0) = read_node f h x" if "x \<in> set (cell_children (h ! r))" for x
  proof -
    from that Suc.prems have "x \<in> set (graph2 h ! r)" by (simp add: graph2_def)
    from wf_graphD [OF wf _ this] Suc.prems have "x < length h" by (simp add: graph2_def)
    then show ?thesis by (rule Suc.IH)
  qed
  then have m: "map (read_node f ?h') (cell_children (?h' ! (r + length h0))) =
      map (read_node f h) (cell_children (h ! r))"
    unfolding c by (simp add: shift2_sel)
  have fields: "cell_id (?h' ! (r + length h0)) = cell_id (h ! r)"
    "cell_label (?h' ! (r + length h0)) = cell_label (h ! r)"
    "cell_color (?h' ! (r + length h0)) = cell_color (h ! r)"
    "cell_edgeLabel (?h' ! (r + length h0)) = cell_edgeLabel (h ! r)"
    "cell_x (?h' ! (r + length h0)) = cell_x (h ! r)"
    "cell_y (?h' ! (r + length h0)) = cell_y (h ! r)"
    unfolding c by (simp_all add: shift2_sel)
  have len: "r + length h0 < length ?h'" using Suc.prems by simp
  show ?case unfolding read_node.simps(2) m fields using len Suc.prems by (simp only: if_True)
qed

lemma read_node_Suc:
  "read_node f h r = Some u \<Longrightarrow> read_node (Suc f) h r = Some u"
proof (induction f arbitrary: r u)
  case 0
  then show ?case by simp
next
  case (Suc f)
  from Suc.prems obtain cs where r: "r < length h"
    and cs: "those (map (read_node f h) (cell_children (h ! r))) = Some cs"
    by (auto split: if_splits option.splits)
  have "read_node (Suc f) h x = read_node f h x" if "x \<in> set (cell_children (h ! r))" for x
  proof -
    from those_map_eq_Some [OF cs] that obtain y where "read_node f h x = Some y" by auto
    with Suc.IH [of x y] show ?thesis by simp
  qed
  then have m: "map (read_node (Suc f) h) (cell_children (h ! r)) =
      map (read_node f h) (cell_children (h ! r))"
    by simp
  have "read_node (Suc (Suc f)) h r =
      (if r < length h then
        (case those (map (read_node (Suc f) h) (cell_children (h ! r))) of
           None \<Rightarrow> None
         | Some cs \<Rightarrow>
             Some (NodeDataType (cell_id (h ! r)) (cell_label (h ! r)) (cell_color (h ! r))
                     (cell_edgeLabel (h ! r)) (cell_x (h ! r)) (cell_y (h ! r)) cs))
      else None)"
    by (rule read_node.simps(2))
  also have "\<dots> = read_node (Suc f) h r" unfolding m by simp
  finally show ?case using Suc.prems by simp
qed

lemma read_node_more:
  "read_node f h r = Some u \<Longrightarrow> read_node (f + d) h r = Some u"
  by (induction d) (simp_all add: read_node_Suc del: read_node.simps)

lemma result2_moved:
  assumes b: "base2 st" and s: "sim2 h0 st st'"
  shows "result2 st' = result2 st"
proof (cases "root st")
  case None
  then show ?thesis using s by (simp add: result2_def sim2_def)
next
  case (Some r)
  from b Some have wf: "wf_graph (graph2 (heap st))" and r: "r < length (heap st)"
    by (auto simp: base2_def)
  from read_node_Some [OF wf r, of "length (heap st)"] obtain u where
    u: "read_node (length (heap st)) (heap st) r = Some u" by auto
  from read_node_more [OF u, of "length h0"]
  have "read_node (length (heap st) + length h0) (heap st) r = Some u" .
  with read_node_moved [OF wf r, of _ h0 "[]"]
  have "read_node (length (heap st) + length h0) (h0 @ map (shift2 (length h0)) (heap st))
          (r + length h0) = Some u"
    by simp
  moreover have "heap st' = h0 @ map (shift2 (length h0)) (heap st)"
    and "root st' = Some (r + length h0)"
    using s Some by (simp_all add: sim2_def)
  ultimately show ?thesis using u Some by (simp add: result2_def add.commute)
qed

lemma call2_result: "result2 (call2 h0 s) = parseMarkdown2 s"
  unfolding parseMarkdown2_def by (rule result2_moved [OF base2_run2 sim2_call2])

lemma call2_keeps: "take (length h0) (heap (call2 h0 s)) = h0"
  using sim2_call2 [of h0 s] by (simp add: sim2_def)

text \<open>The tree a call returned reads the same after any later call.\<close>

lemma call2_tree_kept:
  assumes r: "root (call2 h0 s) = Some r"
  shows "read_node (length (heap (call2 (heap (call2 h0 s)) s')))
           (heap (call2 (heap (call2 h0 s)) s')) r = parseMarkdown2 s"
proof -
  let ?st = "run2 (lines2 s)"
  let ?h1 = "heap (call2 h0 s)"
  let ?h2 = "heap (call2 ?h1 s')"
  note s1 = sim2_call2 [of h0 s]
  from s1 r obtain r0 where r0: "root ?st = Some r0" and rr: "r = r0 + length h0"
    by (cases "root ?st") (auto simp: sim2_def)
  have b: "base2 ?st" by (rule base2_run2)
  from b r0 have wf: "wf_graph (graph2 (heap ?st))" and rl: "r0 < length (heap ?st)"
    by (auto simp: base2_def)
  have h1: "?h1 = h0 @ map (shift2 (length h0)) (heap ?st)" using s1 by (simp add: sim2_def)
  have "?h2 = ?h1 @ map (shift2 (length ?h1)) (heap (run2 (lines2 s')))"
    using sim2_call2 [of ?h1 s'] by (simp add: sim2_def)
  then obtain later where h2: "?h2 = h0 @ map (shift2 (length h0)) (heap ?st) @ later"
    unfolding h1 by simp
  from read_node_Some [OF wf rl, of "length (heap ?st)"] obtain u where
    u: "read_node (length (heap ?st)) (heap ?st) r0 = Some u" by auto
  have l2: "length ?h2 = length (heap ?st) + (length h0 + length later)" unfolding h2 by simp
  from read_node_more [OF u, of "length h0 + length later"]
  have "read_node (length ?h2) (heap ?st) r0 = Some u" unfolding l2 .
  with read_node_moved [OF wf rl, of "length ?h2" h0 later]
  have "read_node (length ?h2) ?h2 r = Some u" unfolding rr h2 [symmetric] by simp
  moreover have "parseMarkdown2 s = Some u" using u r0 by (simp add: parseMarkdown2_def result2_def)
  ultimately show ?thesis by simp
qed

text \<open>
  The first scheme in a store that already holds the cells \<open>h0\<close>: the virtual root is
  allocated after them, at \<open>length h0\<close>, and the stack starts with it; the loop is the
  same. \<open>returned1 k h\<close> is \<^verbatim>\<open>convertToMindMap(root.children[0])\<close> for the virtual
  root in cell \<open>k\<close>.
\<close>

definition call1 :: "store1 \<Rightarrow> string \<Rightarrow> store1 \<times> nat list" where
  "call1 h0 markdown = foldl step1 (h0 @ [root_node], [length h0]) (lines1 markdown)"

definition returned1 :: "nat \<Rightarrow> store1 \<Rightarrow> error + MindMapNode" where
  "returned1 k h =
     (case children (h ! k) of
        [] \<Rightarrow> Inl TypeError
      | c # _ \<Rightarrow>
          (case convertToMindMap (length h) h c 0 0 of
             None \<Rightarrow> Inl FuelExhausted
           | Some t \<Rightarrow> Inr t))"

definition shift1 :: "nat \<Rightarrow> MarkdownNode \<Rightarrow> MarkdownNode" where
  "shift1 k n = n\<lparr>children := map (\<lambda>r. r + k) (children n)\<rparr>"

definition sim1 :: "store1 \<Rightarrow> store1 \<times> nat list \<Rightarrow> store1 \<times> nat list \<Rightarrow> bool" where
  "sim1 h0 st st' \<longleftrightarrow>
     fst st' = h0 @ map (shift1 (length h0)) (fst st) \<and>
     snd st' = map (\<lambda>r. r + length h0) (snd st)"

lemma shift1_sel:
  "level (shift1 k n) = level n" "content (shift1 k n) = content n"
  "children (shift1 k n) = map (\<lambda>r. r + k) (children n)"
  by (simp_all add: shift1_def)

lemma shift1_push: "push_child (k + n) (shift1 k c) = shift1 k (push_child n c)"
  by (simp add: shift1_def push_child_def)

lemma list_update_behind: "(xs @ ys)[i + length xs := v] = xs @ ys[i := v]"
  by (simp add: list_update_append)

lemma result1_returned1: "result1 h = returned1 0 h"
  by (simp add: result1_def returned1_def)

lemma sim1_init: "sim1 h0 init1 (h0 @ [root_node], [length h0])"
  by (simp add: sim1_def init1_def shift1_def root_node_def)

lemma pop_stack_moved:
  "\<forall>r\<in>set stack. r < length h \<Longrightarrow>
   pop_stack (h0 @ map (shift1 (length h0)) h) (map (\<lambda>r. r + length h0) stack) lv =
   map (\<lambda>r. r + length h0) (pop_stack h stack lv)"
proof (induction h stack lv rule: pop_stack.induct)
  case (1 h stack lv)
  let ?h' = "h0 @ map (shift1 (length h0)) h"
  let ?s' = "map (\<lambda>r. r + length h0) stack"
  show ?case
  proof (cases "length stack > 1 \<and> level (h ! last stack) \<ge> lv")
    case True
    then have ne: "stack \<noteq> []" by auto
    then have ls: "last stack < length h" using "1.prems" by simp
    have l: "last ?s' = last stack + length h0" using ne by (simp add: last_map)
    have "level (?h' ! last ?s') = level (h ! last stack)"
      unfolding l using ls by (simp add: nth_append shift1_sel)
    with True have c: "length ?s' > 1 \<and> level (?h' ! last ?s') \<ge> lv" by simp
    have b: "\<forall>r\<in>set (butlast stack). r < length h"
      using "1.prems" by (auto dest: in_set_butlastD)
    have "pop_stack ?h' ?s' lv = pop_stack ?h' (butlast ?s') lv"
      using c by (subst pop_stack.simps) simp
    also have "\<dots> = pop_stack ?h' (map (\<lambda>r. r + length h0) (butlast stack)) lv"
      by (simp add: map_butlast)
    also have "\<dots> = map (\<lambda>r. r + length h0) (pop_stack h (butlast stack) lv)"
      by (rule "1.IH" [OF True b])
    also have "pop_stack h (butlast stack) lv = pop_stack h stack lv"
      using True by (subst (2) pop_stack.simps) simp
    finally show ?thesis .
  next
    case False
    have c: "\<not> (length ?s' > 1 \<and> level (?h' ! last ?s') \<ge> lv)"
    proof (cases "stack = []")
      case True
      then show ?thesis by simp
    next
      case ne: False
      then have ls: "last stack < length h" using "1.prems" by simp
      have l: "last ?s' = last stack + length h0" using ne by (simp add: last_map)
      have "level (?h' ! last ?s') = level (h ! last stack)"
        unfolding l using ls by (simp add: nth_append shift1_sel)
      with False show ?thesis by simp
    qed
    have "pop_stack ?h' ?s' lv =
        (if length ?s' > 1 \<and> level (?h' ! last ?s') \<ge> lv
         then pop_stack ?h' (butlast ?s') lv else ?s')"
      by (rule pop_stack.simps)
    also have "\<dots> = ?s'" using c by (simp only: if_False)
    finally have "pop_stack ?h' ?s' lv = ?s'" .
    moreover have "pop_stack h stack lv = stack"
    proof -
      have "pop_stack h stack lv =
          (if length stack > 1 \<and> level (h ! last stack) \<ge> lv
           then pop_stack h (butlast stack) lv else stack)"
        by (rule pop_stack.simps)
      also have "\<dots> = stack" using False by (simp only: if_False)
      finally show ?thesis .
    qed
    ultimately show ?thesis by simp
  qed
qed

lemma sim1_step:
  assumes ne: "stack \<noteq> []" and bound: "\<forall>r\<in>set stack. r < length h"
    and s: "sim1 h0 (h, stack) st'"
  shows "sim1 h0 (step1 (h, stack) line) (step1 st' line)"
proof -
  let ?k = "length h0"
  let ?lv = "int (heading_level line)"
  let ?n = "\<lparr>level = ?lv, content = trim (strip_heading line), children = []\<rparr>"
  let ?h1 = "h @ [?n]"
  let ?s1 = "pop_stack ?h1 stack ?lv"
  obtain h' stack' where st': "st' = (h', stack')" by (cases st')
  from s st' have h': "h' = h0 @ map (shift1 ?k) h" and stack': "stack' = map (\<lambda>r. r + ?k) stack"
    by (simp_all add: sim1_def)
  have sn: "shift1 ?k ?n = ?n" by (simp add: shift1_def)
  have h1': "h' @ [?n] = h0 @ map (shift1 ?k) ?h1" by (simp add: h' sn)
  have b1: "\<forall>r\<in>set stack. r < length ?h1" using bound by auto
  have p: "pop_stack (h0 @ map (shift1 ?k) ?h1) (map (\<lambda>r. r + ?k) stack) ?lv =
      map (\<lambda>r. r + ?k) ?s1"
    by (rule pop_stack_moved [OF b1])
  from pop_stack_take [OF ne, of ?h1 ?lv] obtain j where j: "0 < j" "j \<le> length stack"
    "?s1 = take j stack" by blast
  then have s1ne: "?s1 \<noteq> []" using ne by simp
  have "last ?s1 \<in> set ?s1" using s1ne by simp
  then have "last ?s1 \<in> set stack" unfolding j(3) by (rule in_set_takeD)
  then have top: "last ?s1 < length h" using bound by simp
  have lt: "last (map (\<lambda>r. r + ?k) ?s1) = last ?s1 + ?k" using s1ne by (simp add: last_map)
  have len: "length h' = ?k + length h" by (simp add: h')
  have cell: "(h0 @ map (shift1 ?k) ?h1) ! (last ?s1 + ?k) = shift1 ?k (?h1 ! last ?s1)"
    using top by (simp add: nth_append)
  have upd: "(h0 @ map (shift1 ?k) ?h1)[last ?s1 + ?k :=
        push_child (?k + length h) (shift1 ?k (?h1 ! last ?s1))] =
      h0 @ map (shift1 ?k) (?h1[last ?s1 := push_child (length h) (?h1 ! last ?s1)])"
    by (simp only: list_update_behind map_update shift1_push)
  have a: "fst (step1 (h, stack) line) = ?h1[last ?s1 := push_child (length h) (?h1 ! last ?s1)]"
    and b: "snd (step1 (h, stack) line) = ?s1 @ [length h]"
    by (simp_all add: step1_def Let_def)
  have a': "fst (step1 (h', stack') line) =
      (h' @ [?n])[last (pop_stack (h' @ [?n]) stack' ?lv) :=
         push_child (length h') ((h' @ [?n]) ! last (pop_stack (h' @ [?n]) stack' ?lv))]"
    and b': "snd (step1 (h', stack') line) = pop_stack (h' @ [?n]) stack' ?lv @ [length h']"
    by (simp_all add: step1_def Let_def)
  have "fst (step1 (h', stack') line) =
      (h0 @ map (shift1 ?k) ?h1)[last ?s1 + ?k :=
        push_child (?k + length h) (shift1 ?k (?h1 ! last ?s1))]"
    unfolding a' unfolding h1' stack' p lt len cell by (rule refl)
  also note upd
  finally have "fst (step1 (h', stack') line) =
      h0 @ map (shift1 ?k) (fst (step1 (h, stack) line))"
    unfolding a .
  moreover have "snd (step1 (h', stack') line) = map (\<lambda>r. r + ?k) ?s1 @ [?k + length h]"
    unfolding b' unfolding h1' stack' p len by (rule refl)
  then have "snd (step1 (h', stack') line) =
      map (\<lambda>r. r + ?k) (snd (step1 (h, stack) line))"
    unfolding b by simp
  ultimately show ?thesis unfolding st' sim1_def by blast
qed

lemma sim1_foldl:
  "inv1 st \<Longrightarrow> sim1 h0 st st' \<Longrightarrow> sim1 h0 (foldl step1 st ls) (foldl step1 st' ls)"
proof (induction ls arbitrary: st st')
  case Nil
  then show ?case by simp
next
  case (Cons l ls)
  obtain h stack where st: "st = (h, stack)" by (cases st)
  from Cons.prems(1) st have "stack \<noteq> []" "\<forall>r\<in>set stack. r < length h"
    by (simp_all add: inv1_def Let_def)
  from sim1_step [OF this Cons.prems(2) [unfolded st]]
  have "sim1 h0 (step1 st l) (step1 st' l)" unfolding st .
  from Cons.IH [OF inv1_step [OF Cons.prems(1)] this] show ?case by simp
qed

lemma sim1_call1: "sim1 h0 (run1 (lines1 s)) (call1 h0 s)"
  unfolding run1_def call1_def by (rule sim1_foldl [OF inv1_init sim1_init])

lemma convertToMindMap_moved:
  assumes wf: "wf_graph (graph1 h)"
  shows "r < length h \<Longrightarrow>
    convertToMindMap f (h0 @ map (shift1 (length h0)) h @ later) (r + length h0) lv idx =
    convertToMindMap f h r lv idx"
proof (induction f arbitrary: r lv idx)
  case 0
  then show ?case by simp
next
  case (Suc f)
  let ?k = "length h0"
  let ?h' = "h0 @ map (shift1 ?k) h @ later"
  let ?cs = "children (h ! r)"
  have c: "?h' ! (r + ?k) = shift1 ?k (h ! r)"
    using Suc.prems by (simp add: nth_append)
  have pt: "convertToMindMap f ?h' (x + ?k) l i = convertToMindMap f h x l i"
    if "x \<in> set ?cs" for x l i
  proof -
    from that Suc.prems have "x \<in> set (graph1 h ! r)" by (simp add: graph1_def)
    from wf_graphD [OF wf _ this] Suc.prems have "x < length h" by (simp add: graph1_def)
    then show ?thesis by (rule Suc.IH)
  qed
  have "map (\<lambda>(child, i). convertToMindMap f ?h' child (lv + 1) i)
          (zip (map (\<lambda>r. r + ?k) ?cs) [0..<length ?cs]) =
        map (\<lambda>(child, i). convertToMindMap f h child (lv + 1) i) (zip ?cs [0..<length ?cs])"
    unfolding zip_map1 map_map
    by (rule map_cong [OF refl]) (auto dest: set_zip_leftD simp: pt)
  then have m: "map (\<lambda>(child, i). convertToMindMap f ?h' child (lv + 1) i)
          (zip (children (?h' ! (r + ?k))) [0..<length (children (?h' ! (r + ?k)))]) =
        map (\<lambda>(child, i). convertToMindMap f h child (lv + 1) i) (zip ?cs [0..<length ?cs])"
    unfolding c shift1_sel by simp
  have fields: "content (?h' ! (r + ?k)) = content (h ! r)"
    unfolding c by (simp add: shift1_sel)
  have len: "r + ?k < length ?h'" using Suc.prems by simp
  show ?case unfolding convertToMindMap.simps(2) m fields using len Suc.prems
    by (simp only: if_True)
qed

lemma convertToMindMap_Suc:
  "convertToMindMap f h r lv idx = Some t \<Longrightarrow> convertToMindMap (Suc f) h r lv idx = Some t"
proof (induction f arbitrary: r lv idx t)
  case 0
  then show ?case by simp
next
  case (Suc f)
  let ?cs = "children (h ! r)"
  let ?z = "zip ?cs [0..<length ?cs]"
  from Suc.prems obtain cs where r: "r < length h"
    and cs: "those (map (\<lambda>(child, i). convertToMindMap f h child (lv + 1) i) ?z) = Some cs"
    by (auto split: if_splits option.splits)
  have "(\<lambda>(child, i). convertToMindMap (Suc f) h child (lv + 1) i) x =
        (\<lambda>(child, i). convertToMindMap f h child (lv + 1) i) x" if "x \<in> set ?z" for x
  proof -
    obtain child i where x: "x = (child, i)" by (cases x)
    from those_map_eq_Some [OF cs] that x obtain y where
      "convertToMindMap f h child (lv + 1) i = Some y" by auto
    with Suc.IH [of child "lv + 1" i y] x show ?thesis by simp
  qed
  then have m: "map (\<lambda>(child, i). convertToMindMap (Suc f) h child (lv + 1) i) ?z =
      map (\<lambda>(child, i). convertToMindMap f h child (lv + 1) i) ?z"
    by (intro map_cong [OF refl])
  have "convertToMindMap (Suc (Suc f)) h r lv idx =
     (if r < length h then
        (case those (map (\<lambda>(child, i). convertToMindMap (Suc f) h child (lv + 1) i) ?z) of
           None \<Rightarrow> None
         | Some cs \<Rightarrow>
             Some (MindMapNode (''node-'' @ show_nat lv @ ''-'' @ show_nat idx)
                     (content (h ! r)) (int lv * 200) (int idx * 100) cs))
      else None)"
    by (rule convertToMindMap.simps(2))
  also have "\<dots> = convertToMindMap (Suc f) h r lv idx" unfolding m by simp
  finally show ?case using Suc.prems by simp
qed

lemma convertToMindMap_more:
  "convertToMindMap f h r lv idx = Some t \<Longrightarrow> convertToMindMap (f + d) h r lv idx = Some t"
  by (induction d) (simp_all add: convertToMindMap_Suc del: convertToMindMap.simps)

lemma returned1_moved:
  assumes i: "inv1 (h, stack)"
  shows "returned1 (length h0) (h0 @ map (shift1 (length h0)) h) = result1 h"
proof -
  let ?k = "length h0"
  let ?h' = "h0 @ map (shift1 ?k) h"
  from i have hne: "h \<noteq> []" and wf: "wf_graph (graph1 h)" by (simp_all add: inv1_def Let_def)
  have c0: "children (?h' ! ?k) = map (\<lambda>r. r + ?k) (children (h ! 0))"
    using hne by (simp add: nth_append shift1_sel)
  show ?thesis
  proof (cases "children (h ! 0)")
    case Nil
    then show ?thesis by (simp add: returned1_def result1_def c0)
  next
    case (Cons c rest)
    have "c \<in> set (graph1 h ! 0)" using hne Cons by (simp add: graph1_def)
    moreover have "0 < length (graph1 h)" using hne by (simp add: graph1_def)
    ultimately have "0 < c \<and> c < length (graph1 h)" using wf by (intro wf_graphD)
    then have cl: "c < length h" by (simp add: graph1_def)
    from convertToMindMap_Some [OF wf cl, of "length h" 0 0] obtain t where
      t: "convertToMindMap (length h) h c 0 0 = Some t" by auto
    from convertToMindMap_more [OF t, of ?k]
    have "convertToMindMap (length h + ?k) h c 0 0 = Some t" .
    with convertToMindMap_moved [OF wf cl, of _ h0 "[]"]
    have "convertToMindMap (length h + ?k) ?h' (c + ?k) 0 0 = Some t" by simp
    then have "convertToMindMap (length ?h') ?h' (c + ?k) 0 0 = Some t"
      by (simp add: add.commute)
    then show ?thesis using t Cons unfolding returned1_def result1_def c0 by simp
  qed
qed

lemma call1_result: "returned1 (length h0) (fst (call1 h0 s)) = parseMarkdown1 s"
proof -
  obtain h stack where r: "run1 (lines1 s) = (h, stack)" by (cases "run1 (lines1 s)")
  have i: "inv1 (h, stack)" using inv1_run1 [of "lines1 s"] r by simp
  from sim1_call1 [of h0 s] r have "fst (call1 h0 s) = h0 @ map (shift1 (length h0)) h"
    by (simp add: sim1_def)
  with returned1_moved [OF i, of h0] r show ?thesis by (simp add: parseMarkdown1_def)
qed

lemma call1_keeps: "take (length h0) (fst (call1 h0 s)) = h0"
  using sim1_call1 [of h0 s] by (simp add: sim1_def)

text \<open>
  The object a call of the second scheme returned, read in a later store \<open>h\<close>: the
  fallback object is a fresh literal, out of reach of any later call.
\<close>

definition reread2 :: "state2 \<Rightarrow> NodeCell list \<Rightarrow> NodeDataType option" where
  "reread2 st h =
     (case root st of
        None \<Rightarrow> Some fallback
      | Some r \<Rightarrow> read_node (length h) h r)"

lemma call2_Nil: "call2 [] s = run2 (lines2 s)"
  by (simp add: call2_def run2_def init2_def)

lemma call1_Nil: "call1 [] s = run1 (lines1 s)"
  by (simp add: call1_def run1_def init1_def)

lemma reread2_kept:
  "reread2 (call2 h0 s) (heap (call2 (heap (call2 h0 s)) s')) = parseMarkdown2 s"
proof (cases "root (call2 h0 s)")
  case None
  then have "result2 (call2 h0 s) = Some fallback" by (simp add: result2_def)
  with None show ?thesis unfolding call2_result by (simp add: reread2_def)
next
  case (Some r)
  from call2_tree_kept [OF Some, of s'] Some show ?thesis by (simp add: reread2_def)
qed

text \<open>
  C8: a call of the parser in a store that holds the objects of any earlier calls
  returns the tree that the call in the empty store returns, so two calls on the same
  string return equal trees (equal ids, labels, colours, edge labels, positions and
  child order, children compared in order). A call leaves the objects it finds as they
  are, and the object the first call returned still reads as the same tree after a later
  call on any string \<open>s'\<close>. The first scheme returns a tree that \<^verbatim>\<open>convertToMindMap\<close>
  builds afresh; the second returns the object \<^verbatim>\<open>root\<close> of its store.
\<close>

theorem C8_same_tree_in_every_store:
  "call2 [] s = run2 (lines2 s) \<and>
   result2 (call2 h0 s) = parseMarkdown2 s \<and>
   result2 (call2 (heap (call2 h0 s)) s) = result2 (call2 h0 s) \<and>
   take (length h0) (heap (call2 h0 s)) = h0 \<and>
   reread2 (call2 h0 s) (heap (call2 (heap (call2 h0 s)) s')) = result2 (call2 h0 s) \<and>
   call1 [] s = run1 (lines1 s) \<and>
   returned1 (length g0) (fst (call1 g0 s)) = parseMarkdown1 s \<and>
   returned1 (length (fst (call1 g0 s))) (fst (call1 (fst (call1 g0 s)) s)) =
     returned1 (length g0) (fst (call1 g0 s)) \<and>
   take (length g0) (fst (call1 g0 s)) = g0"
  by (simp only: call2_Nil call1_Nil call2_result call1_result call2_keeps call1_keeps
      reread2_kept simp_thms)

theorem C8_same_tree_in_every_store_witness:
  "graph2 (heap (call2 [] (''# A'' @ [CHR 0x0A] @ ''## B''))) = [[1], []] \<and>
   graph2 (heap (call2 (heap (call2 [] (''# A'' @ [CHR 0x0A] @ ''## B'')))
                  (''# A'' @ [CHR 0x0A] @ ''## B''))) = [[1], [], [3], []] \<and>
   root (call2 (heap (call2 [] (''# A'' @ [CHR 0x0A] @ ''## B''))) (''# A'' @ [CHR 0x0A] @ ''## B'')) =
     Some 2 \<and>
   result2 (call2 (heap (call2 [] (''# A'' @ [CHR 0x0A] @ ''## B''))) (''# A'' @ [CHR 0x0A] @ ''## B'')) =
     Some (NodeDataType ''a'' ''A'' ''#212529'' None 250 (Num 160)
            [NodeDataType ''b'' ''B'' ''#212529'' None 500 (Num 80) []]) \<and>
   graph1 (fst (call1 (fst (call1 [] (''# A'' @ [CHR 0x0A] @ ''## B'')))
                  (''# A'' @ [CHR 0x0A] @ ''## B''))) = [[1], [2], [], [4], [5], []] \<and>
   returned1 3 (fst (call1 (fst (call1 [] (''# A'' @ [CHR 0x0A] @ ''## B'')))
                  (''# A'' @ [CHR 0x0A] @ ''## B''))) =
     Inr (MindMapNode ''node-0-0'' ''A'' 0 0 [MindMapNode ''node-1-0'' ''B'' 200 0 []])"
proof -
  let ?S = "''# A'' @ [CHR 0x0A] @ ''## B''"
  let ?U = "NodeDataType ''a'' ''A'' ''#212529'' None 250 (Num 160)
            [NodeDataType ''b'' ''B'' ''#212529'' None 500 (Num 80) []]"
  let ?T = "MindMapNode ''node-0-0'' ''A'' 0 0 [MindMapNode ''node-1-0'' ''B'' 200 0 []]"
  have g1: "graph2 (heap (call2 [] ?S)) = [[1], []]" by code_simp
  have g2: "graph2 (heap (call2 (heap (call2 [] ?S)) ?S)) = [[1], [], [3], []]" by code_simp
  have r: "root (call2 (heap (call2 [] ?S)) ?S) = Some 2" by code_simp
  have p2: "parseMarkdown2 ?S = Some ?U" by code_simp
  have g3: "graph1 (fst (call1 (fst (call1 [] ?S)) ?S)) = [[1], [2], [], [4], [5], []]"
    by code_simp
  have l: "length (fst (call1 [] ?S)) = 3" by code_simp
  have p1: "parseMarkdown1 ?S = Inr ?T" by code_simp
  note t = C8_same_tree_in_every_store [of ?S "heap (call2 [] ?S)" ?S "fst (call1 [] ?S)"]
  from t have "result2 (call2 (heap (call2 [] ?S)) ?S) = parseMarkdown2 ?S" by (elim conjE)
  then have a: "result2 (call2 (heap (call2 [] ?S)) ?S) = Some ?U" unfolding p2 .
  from t have "returned1 (length (fst (call1 [] ?S))) (fst (call1 (fst (call1 [] ?S)) ?S)) =
      parseMarkdown1 ?S"
    by (elim conjE)
  then have b: "returned1 3 (fst (call1 (fst (call1 [] ?S)) ?S)) = Inr ?T" unfolding l p1 .
  from g1 g2 r a g3 b show ?thesis by (intro conjI)
qed

end
